theory Spec2Isabelle
  imports Complex_Main "HOL-Library.Multiset" "HOL-Library.Log_Nat"
begin

section \<open>Genre classification with random index vectors\<close>

text \<open>
  A shallow embedding of the vector construction and nearest-centroid classification code
  of the notebook \<^verbatim>\<open>genre_classification_project.ipynb\<close>. Python exceptions are values
  of the type \<open>error\<close>; a computation that may raise returns \<open>error + 'a\<close>, with \<open>Inl\<close>
  for the exception.
\<close>

subsection \<open>Exceptions\<close>

datatype error = KeyError | IndexError | ZeroDivisionError | ValueError

type_synonym 'a result = "error + 'a"

subsection \<open>Floating-point arithmetic\<close>

text \<open>
  Python's \<^verbatim>\<open>float\<close> is IEEE 754 binary64. Addition, subtraction, multiplication,
  division and the square root return the exact real result rounded to the nearest
  number with a 53-bit significand, ties to the even significand. \<open>binary64\<close> is that rounding, with an unbounded exponent range (overflow
  and subnormal numbers are outside the model). The numeric functions below take the
  arithmetic as a parameter: \<open>Binary64\<close> rounds after every operation as the interpreter
  does, \<open>Exact\<close> is the same code in exact real arithmetic.
\<close>

definition round_half_even :: "real \<Rightarrow> int" where
  "round_half_even x =
     (let f = \<lfloor>x\<rfloor>; r = x - of_int f
      in if r < 1 / 2 then f
         else if 1 / 2 < r then f + 1
         else if even f then f else f + 1)"

definition binary64 :: "real \<Rightarrow> real" where
  "binary64 x =
     (if x = 0 then 0
      else let e = \<lfloor>log 2 \<bar>x\<bar>\<rfloor> - 52
           in of_int (round_half_even (x / 2 powr (of_int e))) * 2 powr (of_int e))"

text \<open>
  The exponent and the power of two without logarithms, for evaluation: \<open>binade x\<close> is
  \<open>\<lfloor>log 2 \<bar>x\<bar>\<rfloor>\<close> and \<open>pow2 e\<close> is \<open>2 powr e\<close> (\<open>binade_log\<close>, \<open>pow2_powr\<close>,
  \<open>binary64_code\<close> below).
\<close>

definition pow2 :: "int \<Rightarrow> real" where
  "pow2 e = (if 0 \<le> e then 2 ^ nat e else 1 / 2 ^ nat (- e))"

definition binade :: "real \<Rightarrow> int" where
  "binade x =
     (let k = nat (bitlen \<lceil>1 / \<bar>x\<bar>\<rceil>)
      in bitlen \<lfloor>\<bar>x\<bar> * 2 ^ k\<rfloor> - 1 - int k)"

datatype arith = Exact | Binary64

fun rnd :: "arith \<Rightarrow> real \<Rightarrow> real" where
  "rnd Exact x = x"
| "rnd Binary64 x = binary64 x"

text \<open>
  \<^verbatim>\<open>x ** 2\<close> on a float is not a multiplication: the interpreter calls \<^verbatim>\<open>pow\<close> of the
  C library, which is not correctly rounded (\<^verbatim>\<open>0.6745785200962753 ** 2\<close> is
  \<^verbatim>\<open>0.4550561797752809\<close>, the product \<^verbatim>\<open>x * x\<close> is \<^verbatim>\<open>0.45505617977528084\<close>). The
  library is outside the notebook; its error is below one unit in the last place, so
  that it returns one of the two numbers of the format that enclose the exact square
  (the square itself when that is a number of the format). \<open>binary64_down\<close> and
  \<open>binary64_up\<close> are these two numbers, and \<open>libm_square\<close> is a function of which
  nothing more is known than that it returns one of them on every argument.
\<close>

definition binary64_down :: "real \<Rightarrow> real" where
  "binary64_down x =
     (if x = 0 then 0
      else let e = \<lfloor>log 2 \<bar>x\<bar>\<rfloor> - 52
           in of_int \<lfloor>x / 2 powr (of_int e)\<rfloor> * 2 powr (of_int e))"

definition binary64_up :: "real \<Rightarrow> real" where
  "binary64_up x =
     (if x = 0 then 0
      else let e = \<lfloor>log 2 \<bar>x\<bar>\<rfloor> - 52
           in of_int \<lceil>x / 2 powr (of_int e)\<rceil> * 2 powr (of_int e))"

definition faithful_square :: "(real \<Rightarrow> real) \<Rightarrow> bool" where
  "faithful_square f = (\<forall>x. f x = binary64_down (x ^ 2) \<or> f x = binary64_up (x ^ 2))"

definition libm_square :: "real \<Rightarrow> real" where
  "libm_square = (SOME f. faithful_square f)"

fun square :: "arith \<Rightarrow> real \<Rightarrow> real" where
  "square Exact x = x ^ 2"
| "square Binary64 x = libm_square x"

text \<open>
  The relative error of one rounding is at most \<open>unit_roundoff\<close>, that of a square at
  most twice as much (\<open>rnd_error\<close>, \<open>square_error\<close> below). Two numbers are within a
  factor \<open>q\<close> of each other (\<open>within_factor\<close>) when each is at least \<open>q\<close> times
  the other.
\<close>

fun unit_roundoff :: "arith \<Rightarrow> real" where
  "unit_roundoff Exact = 0"
| "unit_roundoff Binary64 = 1 / 2 ^ 53"

definition within_factor :: "real \<Rightarrow> real \<Rightarrow> real \<Rightarrow> bool" where
  "within_factor q a b = (q * b \<le> a \<and> q * a \<le> b)"

text \<open>\<^verbatim>\<open>x / y\<close> on floats raises ZeroDivisionError when \<^verbatim>\<open>y\<close> is zero.\<close>

definition truediv :: "arith \<Rightarrow> real \<Rightarrow> real \<Rightarrow> real result" where
  "truediv md x y = (if y = 0 then Inl ZeroDivisionError else Inr (rnd md (x / y)))"

subsection \<open>Index vectors\<close>

text \<open>
  \<^verbatim>\<open>
  index_vector = {word: [0]*d for word in vocabulary}
  for word in vocabulary:
      random_positions = list(range(0, d))
      random.shuffle(random_positions)
      for i in random_positions[:m]:
          index_vector[word][i] = 1
  \<close>
  The random source is a parameter: \<open>shuffle word xs\<close> is the order in which
  \<^verbatim>\<open>random.shuffle\<close> leaves the list \<open>xs\<close> when the loop is at \<open>word\<close>. All that is
  known of it is that it permutes its argument (\<open>is_shuffle\<close>). The vocabulary is a
  Python set; it is modelled by the list of its elements in iteration order.
\<close>

definition is_shuffle :: "(string \<Rightarrow> nat list \<Rightarrow> nat list) \<Rightarrow> bool" where
  "is_shuffle shuffle = (\<forall>w xs. mset (shuffle w xs) = mset xs)"

text \<open>\<^verbatim>\<open>v[i] = x\<close> for a non-negative index: IndexError beyond the end of the list.\<close>

definition set_item :: "'a list \<Rightarrow> nat \<Rightarrow> 'a \<Rightarrow> 'a list result" where
  "set_item v i x = (if i < length v then Inr (v[i := x]) else Inl IndexError)"

fun mark_positions :: "int list \<Rightarrow> nat list \<Rightarrow> int list result" where
  "mark_positions v [] = Inr v"
| "mark_positions v (i # ps) =
     (case set_item v i 1 of Inl e \<Rightarrow> Inl e | Inr v' \<Rightarrow> mark_positions v' ps)"

definition make_index_vector :: "nat \<Rightarrow> nat \<Rightarrow> nat list \<Rightarrow> int list result" where
  "make_index_vector d m random_positions =
     mark_positions (replicate d 0) (take m random_positions)"

fun fill_index_vectors ::
  "nat \<Rightarrow> nat \<Rightarrow> (string \<Rightarrow> nat list \<Rightarrow> nat list) \<Rightarrow> (string \<rightharpoonup> int list) \<Rightarrow> string list
     \<Rightarrow> (string \<rightharpoonup> int list) result" where
  "fill_index_vectors d m shuffle iv [] = Inr iv"
| "fill_index_vectors d m shuffle iv (word # ws) =
     (case iv word of
        None \<Rightarrow> Inl KeyError
      | Some v \<Rightarrow>
          (case mark_positions v (take m (shuffle word [0..<d])) of
             Inl e \<Rightarrow> Inl e
           | Inr v' \<Rightarrow> fill_index_vectors d m shuffle (iv(word \<mapsto> v')) ws))"

definition index_vector ::
  "nat \<Rightarrow> nat \<Rightarrow> (string \<Rightarrow> nat list \<Rightarrow> nat list) \<Rightarrow> string list
     \<Rightarrow> (string \<rightharpoonup> int list) result" where
  "index_vector d m shuffle vocabulary =
     fill_index_vectors d m shuffle
       (\<lambda>word. if word \<in> set vocabulary then Some (replicate d 0) else None) vocabulary"

subsection \<open>Context vectors\<close>

text \<open>
  \<^verbatim>\<open>
  def add_vector(a, b):
      for i, x in enumerate(b):
          a[i] += x
  \<close>
  The context vector \<^verbatim>\<open>a\<close> is a list of floats and the index vector \<^verbatim>\<open>b\<close> a list of
  integers. \<^verbatim>\<open>a[i]\<close> raises IndexError when \<^verbatim>\<open>b\<close> is longer than \<^verbatim>\<open>a\<close>. The list is
  mutated in place; the model returns the updated list.
\<close>

fun add_loop :: "arith \<Rightarrow> real list \<Rightarrow> nat \<Rightarrow> int list \<Rightarrow> real list result" where
  "add_loop md a i [] = Inr a"
| "add_loop md a i (x # xs) =
     (if i < length a then add_loop md (a[i := rnd md (a ! i + of_int x)]) (Suc i) xs
      else Inl IndexError)"

definition add_vector :: "arith \<Rightarrow> real list \<Rightarrow> int list \<Rightarrow> real list result" where
  "add_vector md a b = add_loop md a 0 b"

text \<open>
  \<^verbatim>\<open>w.lower()\<close> on the ASCII letters; the characters of the model are bytes, and the
  corpus words are ASCII.
\<close>

definition lower_char :: "char \<Rightarrow> char" where
  "lower_char c =
     (if (65::nat) \<le> of_char c \<and> of_char c \<le> (90::nat) then char_of (of_char c + (32::nat))
      else c)"

definition lower :: "string \<Rightarrow> string" where
  "lower w = map lower_char w"

text \<open>
  \<^verbatim>\<open>
  for word in context:
      add_vector(context_vector[doc], index_vector[word])
  \<close>
  \<^verbatim>\<open>index_vector[word]\<close> raises KeyError for a word outside the vocabulary.
\<close>

fun add_words ::
  "arith \<Rightarrow> (string \<rightharpoonup> int list) \<Rightarrow> real list \<Rightarrow> string list \<Rightarrow> real list result" where
  "add_words md iv cv [] = Inr cv"
| "add_words md iv cv (word # ws) =
     (case iv word of
        None \<Rightarrow> Inl KeyError
      | Some b \<Rightarrow>
          (case add_vector md cv b of
             Inl e \<Rightarrow> Inl e
           | Inr cv' \<Rightarrow> add_words md iv cv' ws))"

text \<open>
  \<^verbatim>\<open>
  context_vector = {doc: [0.0]*d for doc in documents}
  for doc in documents:
      context = [w.lower() for w in (brown.words(doc))]
      for word in context: ...
  \<close>
  \<open>words\<close> is the corpus reader \<^verbatim>\<open>brown.words\<close>.
\<close>

fun fill_context_vectors ::
  "arith \<Rightarrow> (string \<rightharpoonup> int list) \<Rightarrow> (string \<Rightarrow> string list) \<Rightarrow> (string \<rightharpoonup> real list)
     \<Rightarrow> string list \<Rightarrow> (string \<rightharpoonup> real list) result" where
  "fill_context_vectors md iv words cv [] = Inr cv"
| "fill_context_vectors md iv words cv (doc # ds) =
     (case cv doc of
        None \<Rightarrow> Inl KeyError
      | Some v \<Rightarrow>
          (case add_words md iv v (map lower (words doc)) of
             Inl e \<Rightarrow> Inl e
           | Inr v' \<Rightarrow> fill_context_vectors md iv words (cv(doc \<mapsto> v')) ds))"

definition context_vector ::
  "arith \<Rightarrow> nat \<Rightarrow> (string \<rightharpoonup> int list) \<Rightarrow> (string \<Rightarrow> string list) \<Rightarrow> string list
     \<Rightarrow> (string \<rightharpoonup> real list) result" where
  "context_vector md d iv words documents =
     fill_context_vectors md iv words
       (\<lambda>doc. if doc \<in> set documents then Some (replicate d 0) else None) documents"

subsection \<open>Vector length and normalization\<close>

text \<open>
  \<^verbatim>\<open>
  def vector_length(v):
      total = sum(x ** 2 for x in v)
      squared = math.sqrt(total)
      return squared

  def normalize(a):
      return [(x / vector_length(a)) for x in a]
  \<close>
\<close>

text \<open>
  \<^verbatim>\<open>sum\<close> starts from the integer 0 and adds the items from left to right, \<^verbatim>\<open>x ** 2\<close>
  is the square of the C library (\<open>square\<close>) and \<^verbatim>\<open>math.sqrt\<close> the rounded square root.
  The notebook records Python 3.8.9 as its interpreter, where \<^verbatim>\<open>sum\<close> rounds after every
  addition; an interpreter from version 3.12 on compensates the rounding errors of a
  sum of floats, which is not modelled.
\<close>

definition py_sum :: "arith \<Rightarrow> real list \<Rightarrow> real" where
  "py_sum md xs = foldl (\<lambda>acc x. rnd md (acc + x)) 0 xs"

definition vector_length :: "arith \<Rightarrow> real list \<Rightarrow> real" where
  "vector_length md v = rnd md (sqrt (py_sum md (map (square md) v)))"

text \<open>
  A list comprehension whose element expression may raise. The model of \<^verbatim>\<open>normalize\<close>
  is \<open>normalize_vec\<close> (the library has a constant \<open>normalize\<close>).
\<close>

fun comprehension :: "('a \<Rightarrow> 'b result) \<Rightarrow> 'a list \<Rightarrow> 'b list result" where
  "comprehension f [] = Inr []"
| "comprehension f (x # xs) =
     (case f x of
        Inl e \<Rightarrow> Inl e
      | Inr y \<Rightarrow> (case comprehension f xs of Inl e \<Rightarrow> Inl e | Inr ys \<Rightarrow> Inr (y # ys)))"

definition normalize_vec :: "arith \<Rightarrow> real list \<Rightarrow> real list result" where
  "normalize_vec md a = comprehension (\<lambda>x. truediv md x (vector_length md a)) a"

subsection \<open>Cosine distance\<close>

text \<open>
  \<^verbatim>\<open>
  def cosine_dist(a, b):
      total = 0
      i = 0
      while i <= (len(b) - 1):
          total += a[i] * b[i]
          i += 1
      return 1 - (total / (vector_length(a) * vector_length(b)))
  \<close>
  The loop runs over the indices of \<^verbatim>\<open>b\<close>; \<^verbatim>\<open>a[i]\<close> raises IndexError when \<^verbatim>\<open>a\<close> is
  shorter than \<^verbatim>\<open>b\<close>.
\<close>

function cosine_loop :: "arith \<Rightarrow> real list \<Rightarrow> real list \<Rightarrow> nat \<Rightarrow> real \<Rightarrow> real result" where
  "cosine_loop md a b i tot =
     (if int i \<le> int (length b) - 1
      then (if i < length a
            then cosine_loop md a b (Suc i) (rnd md (tot + rnd md (a ! i * b ! i)))
            else Inl IndexError)
      else Inr tot)"
  by pat_completeness auto
termination
  by (relation "measure (\<lambda>(md, a, b, i, tot). length b - i)") auto

declare cosine_loop.simps [simp del]

definition cosine_dist :: "arith \<Rightarrow> real list \<Rightarrow> real list \<Rightarrow> real result" where
  "cosine_dist md a b =
     (case cosine_loop md a b 0 0 of
        Inl e \<Rightarrow> Inl e
      | Inr tot \<Rightarrow>
          (case truediv md tot (rnd md (vector_length md a * vector_length md b)) of
             Inl e \<Rightarrow> Inl e
           | Inr q \<Rightarrow> Inr (rnd md (1 - q))))"

subsection \<open>Train/test split\<close>

text \<open>
  \<^verbatim>\<open>
  test_documents = []
  for genre in train_genres:
      size = int(len(brown.fileids(categories=genre)) * 0.3)
      for file in brown.fileids(categories=genre)[:size]:
          test_documents.append(file)
  ...
  for genre in train_genres:
      size = int(len(brown.fileids(categories=genre)) * 0.7)
      context = [w.lower() for w in [w for w in brown.words(brown.fileids(categories=genre)[size:])]]
  \<close>
  The literals \<^verbatim>\<open>0.3\<close> and \<^verbatim>\<open>0.7\<close> denote the nearest binary64 numbers, the product
  is a float product, and \<^verbatim>\<open>int\<close> truncates towards zero.
\<close>

definition float_0_3 :: real where
  "float_0_3 = 5404319552844595 / 2 ^ 54"

definition float_0_7 :: real where
  "float_0_7 = 3152519739159347 / 2 ^ 52"

definition py_int :: "real \<Rightarrow> int" where
  "py_int x = (if 0 \<le> x then \<lfloor>x\<rfloor> else \<lceil>x\<rceil>)"

definition split_size :: "real \<Rightarrow> nat \<Rightarrow> nat" where
  "split_size fraction n = nat (py_int (binary64 (real n * fraction)))"

definition test_files :: "'a list \<Rightarrow> 'a list" where
  "test_files fileids = take (split_size float_0_3 (length fileids)) fileids"

definition train_files :: "'a list \<Rightarrow> 'a list" where
  "train_files fileids = drop (split_size float_0_7 (length fileids)) fileids"

definition train_genres :: "string list \<Rightarrow> string list \<Rightarrow> string list" where
  "train_genres all_genres categories = filter (\<lambda>genre. genre \<in> set categories) all_genres"

definition make_test_documents :: "(string \<Rightarrow> string list) \<Rightarrow> string list \<Rightarrow> string list" where
  "make_test_documents fileids genres = concat (map (\<lambda>genre. test_files (fileids genre)) genres)"

text \<open>The token sequence a genre vector is built from: the words of its training files.\<close>

definition genre_context ::
  "(string \<Rightarrow> string list) \<Rightarrow> (string \<Rightarrow> string list) \<Rightarrow> string \<Rightarrow> string list" where
  "genre_context fileids words genre =
     map lower (concat (map words (train_files (fileids genre))))"

subsection \<open>Nearest-centroid classification\<close>

text \<open>
  \<^verbatim>\<open>pairwise_distance(docs, genres)\<close> reads the globals \<^verbatim>\<open>context_vector_document\<close>,
  \<^verbatim>\<open>context_vector_genre\<close> and \<^verbatim>\<open>test_documents\<close>, and the gold standard
  \<^verbatim>\<open>brown.categories(doc)[0]\<close> of the corpus.
\<close>

record globals =
  context_vector_document :: "string \<rightharpoonup> real list"
  context_vector_genre :: "string \<rightharpoonup> real list"
  test_documents :: "string list"
  gold_standard :: "string \<Rightarrow> string"

type_synonym pair = "string \<times> string \<times> real"

text \<open>
  \<^verbatim>\<open>
  cosine_dist(normalize(context_vector_document[doc]),
              normalize(context_vector_genre[genre]))
  \<close>
  with the arguments evaluated from left to right.
\<close>

definition pair_distance :: "arith \<Rightarrow> globals \<Rightarrow> string \<Rightarrow> string \<Rightarrow> real result" where
  "pair_distance md G doc genre =
     (case context_vector_document G doc of
        None \<Rightarrow> Inl KeyError
      | Some v \<Rightarrow>
          (case normalize_vec md v of
             Inl e \<Rightarrow> Inl e
           | Inr nv \<Rightarrow>
               (case context_vector_genre G genre of
                  None \<Rightarrow> Inl KeyError
                | Some w \<Rightarrow>
                    (case normalize_vec md w of
                       Inl e \<Rightarrow> Inl e
                     | Inr nw \<Rightarrow> cosine_dist md nv nw))))"

text \<open>The first loop: every document-genre pair with its distance, appended in order.\<close>

fun genre_pairs ::
  "arith \<Rightarrow> globals \<Rightarrow> string \<Rightarrow> string list \<Rightarrow> pair list \<Rightarrow> pair list result" where
  "genre_pairs md G doc [] print_pairs = Inr print_pairs"
| "genre_pairs md G doc (genre # gs) print_pairs =
     (case pair_distance md G doc genre of
        Inl e \<Rightarrow> Inl e
      | Inr dst \<Rightarrow> genre_pairs md G doc gs (print_pairs @ [(doc, genre, dst)]))"

fun all_pairs ::
  "arith \<Rightarrow> globals \<Rightarrow> string list \<Rightarrow> string list \<Rightarrow> pair list \<Rightarrow> pair list result" where
  "all_pairs md G [] genres print_pairs = Inr print_pairs"
| "all_pairs md G (doc # ds) genres print_pairs =
     (case genre_pairs md G doc genres print_pairs of
        Inl e \<Rightarrow> Inl e
      | Inr print_pairs' \<Rightarrow> all_pairs md G ds genres print_pairs')"

text \<open>
  \<^verbatim>\<open>min(relevant, key=lambda d: d[2])\<close>: ValueError on an empty list; otherwise the
  first item is the candidate and a later item replaces it only when its key is strictly
  smaller.
\<close>

fun py_min :: "('a \<Rightarrow> real) \<Rightarrow> 'a list \<Rightarrow> 'a result" where
  "py_min key [] = Inl ValueError"
| "py_min key (x # xs) = Inr (foldl (\<lambda>best item. if key item < key best then item else best) x xs)"

text \<open>The second loop: the minimum pair of every document and the two counters.\<close>

fun select_loop ::
  "globals \<Rightarrow> pair list \<Rightarrow> string list \<Rightarrow> pair list \<times> nat \<times> nat
     \<Rightarrow> (pair list \<times> nat \<times> nat) result" where
  "select_loop G print_pairs [] state = Inr state"
| "select_loop G print_pairs (doc # ds) (min_pairs, correct, incorrect) =
     (case py_min (\<lambda>d. snd (snd d)) (filter (\<lambda>pair. fst pair = doc) print_pairs) of
        Inl e \<Rightarrow> Inl e
      | Inr min_distance \<Rightarrow>
          select_loop G print_pairs ds
            (min_pairs @ [min_distance],
             if fst (snd min_distance) = gold_standard G doc
             then (correct + 1, incorrect) else (correct, incorrect + 1)))"

text \<open>The two passes of \<^verbatim>\<open>pairwise_distance\<close> over the documents, up to the printing of the table.\<close>

definition classify ::
  "arith \<Rightarrow> globals \<Rightarrow> string list \<Rightarrow> string list \<Rightarrow> (pair list \<times> nat \<times> nat) result" where
  "classify md G docs genres =
     (case all_pairs md G docs genres [] of
        Inl e \<Rightarrow> Inl e
      | Inr print_pairs \<Rightarrow> select_loop G print_pairs docs ([], 0, 0))"

record report =
  min_pairs :: "pair list"
  correct :: nat
  incorrect :: nat
  percentage :: real

text \<open>
  The value printed after \<^verbatim>\<open>Correctly classified documents:\<close> is
  \<^verbatim>\<open>float(correct) / len(test_documents) * 100\<close>.
\<close>

definition pairwise_distance :: "arith \<Rightarrow> globals \<Rightarrow> string list \<Rightarrow> string list \<Rightarrow> report result" where
  "pairwise_distance md G docs genres =
     (case classify md G docs genres of
        Inl e \<Rightarrow> Inl e
      | Inr (mp, c, i) \<Rightarrow>
          (case truediv md (real c) (real (length (test_documents G))) of
             Inl e \<Rightarrow> Inl e
           | Inr q \<Rightarrow>
               Inr \<lparr>min_pairs = mp, correct = c, incorrect = i,
                    percentage = rnd md (q * 100)\<rparr>))"

subsection \<open>The vector operations of the specification\<close>

text \<open>
  The operations in the words of the specification, to compare the code with: the length
  of a vector is the square root of the sum of the squares of its components, a vector
  is normalized by dividing every component by the length, and the cosine distance is
  \<^verbatim>\<open>1 - dot(a, b) / (length(a) * length(b))\<close>. They are total functions on lists,
  without a loop, an index or an exception; every operation is one of the arithmetic
  \<open>md\<close>, the sums from left to right. In exact arithmetic they are the textbook formulas
  (\<open>spec_length_Exact\<close>, \<open>spec_dot_Exact\<close>, \<open>spec_cosine_distance_Exact\<close> below).
\<close>

definition spec_length :: "arith \<Rightarrow> real list \<Rightarrow> real" where
  "spec_length md v = rnd md (sqrt (foldl (\<lambda>s x. rnd md (s + square md x)) 0 v))"

definition spec_normalize :: "arith \<Rightarrow> real list \<Rightarrow> real list" where
  "spec_normalize md v = map (\<lambda>x. rnd md (x / spec_length md v)) v"

definition spec_dot :: "arith \<Rightarrow> real list \<Rightarrow> real list \<Rightarrow> real" where
  "spec_dot md a b = foldl (\<lambda>s (x, y). rnd md (s + rnd md (x * y))) 0 (zip a b)"

definition spec_cosine_distance :: "arith \<Rightarrow> real list \<Rightarrow> real list \<Rightarrow> real" where
  "spec_cosine_distance md a b =
     rnd md (1 - rnd md (spec_dot md a b / rnd md (spec_length md a * spec_length md b)))"

subsection \<open>An example configuration\<close>

text \<open>
  Two test documents and two genres in dimension 2: \<open>d1\<close> has the direction of the
  genre \<open>news\<close> and \<open>d2\<close> the direction of \<open>humor\<close>, and the gold standard of
  both documents is \<open>humor\<close>.
\<close>

definition example_globals :: globals where
  "example_globals =
     \<lparr>context_vector_document = [''d1'' \<mapsto> [1, 0], ''d2'' \<mapsto> [0, 1]],
      context_vector_genre = [''news'' \<mapsto> [1, 0], ''humor'' \<mapsto> [0, 1]],
      test_documents = [''d1'', ''d2''],
      gold_standard = (\<lambda>doc. ''humor'')\<rparr>"

section \<open>Properties\<close>

subsection \<open>Rounding\<close>

text \<open>
  How \<open>binary64\<close> evaluates: a number whose magnitude, scaled by \<open>2 ^ k\<close>, lies in
  \<open>[2 ^ 52, 2 ^ 53)\<close> is rounded to the nearest multiple of \<open>1 / 2 ^ k\<close>.
\<close>

lemma round_half_even_eqI:
  assumes "of_int m - 1 / 2 < x" and "x < of_int m + 1 / 2"
  shows "round_half_even x = m"
proof -
  have "\<lfloor>x\<rfloor> = m \<or> \<lfloor>x\<rfloor> = m - 1"
    using assms by linarith
  then show ?thesis
  proof
    assume f: "\<lfloor>x\<rfloor> = m"
    then have "x - of_int \<lfloor>x\<rfloor> < 1 / 2" using assms by simp
    then show ?thesis using f by (simp add: round_half_even_def Let_def)
  next
    assume f: "\<lfloor>x\<rfloor> = m - 1"
    then have "1 / 2 < x - of_int \<lfloor>x\<rfloor>" using assms by simp
    then show ?thesis using f by (simp add: round_half_even_def Let_def)
  qed
qed

lemma round_half_even_tie:
  assumes "x = of_int m + 1 / 2"
  shows "round_half_even x = (if even m then m else m + 1)"
proof -
  have f: "\<lfloor>x\<rfloor> = m" using assms by linarith
  have "x - of_int \<lfloor>x\<rfloor> = 1 / 2" using assms f by simp
  then show ?thesis using f by (simp add: round_half_even_def Let_def)
qed

lemma round_half_even_of_int: "round_half_even (of_int m) = m"
  by (rule round_half_even_eqI) simp_all

lemma binary64_exponent:
  assumes "2 ^ 52 \<le> \<bar>x\<bar> * 2 ^ k" and "\<bar>x\<bar> * 2 ^ k < 2 ^ 53"
  shows "\<lfloor>log 2 \<bar>x\<bar>\<rfloor> - 52 = - int k"
proof -
  have pos: "0 < \<bar>x\<bar>" using assms(1) by (cases "x = 0") simp_all
  have p: "(2::real) powr (of_int (52 - int k)) = 2 ^ 52 / 2 ^ k"
    by (simp add: powr_diff powr_realpow flip: powr_numeral)
  have q: "(2::real) powr (of_int (52 - int k + 1)) = 2 ^ 53 / 2 ^ k"
    by (simp add: powr_diff powr_realpow powr_add flip: powr_numeral)
  have "2 powr (of_int (52 - int k)) \<le> \<bar>x\<bar>"
    unfolding p using assms(1) by (simp add: divide_le_eq)
  moreover have "\<bar>x\<bar> < 2 powr (of_int (52 - int k + 1))"
    unfolding q using assms(2) by (simp add: less_divide_eq)
  ultimately have "\<lfloor>log 2 \<bar>x\<bar>\<rfloor> = 52 - int k"
    using pos by (subst floor_log_eq_powr_iff) simp_all
  then show ?thesis by simp
qed

lemma binary64_scaled:
  assumes "2 ^ 52 \<le> \<bar>x\<bar> * 2 ^ k" and "\<bar>x\<bar> * 2 ^ k < 2 ^ 53"
  shows "binary64 x = of_int (round_half_even (x * 2 ^ k)) / 2 ^ k"
proof -
  have nz: "x \<noteq> 0" using assms(1) by (cases "x = 0") simp_all
  have e: "\<lfloor>log 2 \<bar>x\<bar>\<rfloor> - 52 = - int k" by (rule binary64_exponent [OF assms])
  have p: "(2::real) powr (of_int (- int k)) = 1 / 2 ^ k"
    by (simp add: powr_minus powr_realpow divide_inverse)
  show ?thesis
    using nz by (simp add: binary64_def Let_def e p del: of_int_minus)
qed

lemma binary64_zero: "binary64 0 = 0"
  by (simp add: binary64_def)


lemma binary64_eqI:
  assumes "2 ^ 52 \<le> \<bar>x\<bar> * 2 ^ k" and "\<bar>x\<bar> * 2 ^ k < 2 ^ 53"
    and "of_int m - 1 / 2 < x * 2 ^ k" and "x * 2 ^ k < of_int m + 1 / 2"
  shows "binary64 x = of_int m / 2 ^ k"
  using binary64_scaled [OF assms(1,2)] round_half_even_eqI [OF assms(3,4)] by simp

lemma binary64_tieI:
  assumes "2 ^ 52 \<le> \<bar>x\<bar> * 2 ^ k" and "\<bar>x\<bar> * 2 ^ k < 2 ^ 53"
    and "x * 2 ^ k = of_int m + 1 / 2" and "odd m"
  shows "binary64 x = of_int (m + 1) / 2 ^ k"
  using binary64_scaled [OF assms(1,2)] round_half_even_tie [OF assms(3)] assms(4) by simp

lemma binary64_of_int:
  assumes "\<bar>n\<bar> < 2 ^ 53"
  shows "binary64 (of_int n) = of_int n"
proof (cases "n = 0")
  case True
  then show ?thesis by (simp add: binary64_def)
next
  case False
  define L where "L = \<lfloor>log 2 \<bar>real_of_int n\<bar>\<rfloor>"
  have pos: "0 < \<bar>real_of_int n\<bar>" using False by simp
  have one: "1 \<le> \<bar>real_of_int n\<bar>" using False by (simp flip: of_int_abs)
  have b: "2 powr (of_int L) \<le> \<bar>real_of_int n\<bar>" "\<bar>real_of_int n\<bar> < 2 powr (of_int (L + 1))"
    using floor_log_eq_powr_iff [OF pos, of 2 L] by (simp_all add: L_def)
  have L0: "0 \<le> L" using one by (simp add: L_def)
  have up: "\<bar>real_of_int n\<bar> < 2 powr 53"
  proof -
    have "real_of_int \<bar>n\<bar> < real_of_int (2 ^ 53)" using assms by (simp only: of_int_less_iff)
    then show ?thesis by simp
  qed
  have "2 powr (of_int L) < 2 powr (53::real)" using b(1) up by simp
  then have "L < 53" using powr_less_cancel_iff [of 2 "real_of_int L" 53] by simp
  define k where "k = nat (52 - L)"
  have Lk: "L = 52 - int k" using \<open>L < 53\<close> by (simp add: k_def)
  have p: "(2::real) powr (of_int (52 - int k)) = 2 ^ 52 / 2 ^ k"
    by (simp add: powr_diff powr_realpow flip: powr_numeral)
  have q: "(2::real) powr (of_int (52 - int k + 1)) = 2 ^ 53 / 2 ^ k"
    by (simp add: powr_diff powr_realpow powr_add flip: powr_numeral)
  have lo: "2 ^ 52 \<le> \<bar>real_of_int n\<bar> * 2 ^ k"
    using b(1) unfolding Lk p by (simp add: divide_le_eq)
  have hi: "\<bar>real_of_int n\<bar> * 2 ^ k < 2 ^ 53"
    using b(2) unfolding Lk q by (simp add: less_divide_eq)
  have "real_of_int n * 2 ^ k = of_int (n * 2 ^ k)" by simp
  then have "round_half_even (real_of_int n * 2 ^ k) = n * 2 ^ k"
    by (simp only: round_half_even_of_int)
  then show ?thesis using binary64_scaled [OF lo hi] by simp
qed

lemma rnd_of_int: "\<bar>n\<bar> < 2 ^ 53 \<Longrightarrow> rnd md (of_int n) = of_int n"
  by (cases md) (simp_all add: binary64_of_int)

lemma binary64_1: "binary64 1 = 1"
  using binary64_of_int [of 1] by simp

lemma binary64_2: "binary64 2 = 2"
  using binary64_of_int [of 2] by simp

lemma binary64_3: "binary64 3 = 3"
  using binary64_of_int [of 3] by simp


lemma pow2_powr: "pow2 e = 2 powr (of_int e)"
proof (cases "0 \<le> e")
  case True
  then have "(2::real) powr (of_int e) = 2 powr (real (nat e))" by simp
  then show ?thesis using True by (simp only: pow2_def powr_realpow) simp
next
  case False
  then have "(2::real) powr (of_int e) = 2 powr (- real (nat (- e)))" by simp
  also have "\<dots> = 1 / 2 ^ nat (- e)" by (simp add: powr_minus powr_realpow divide_inverse)
  finally show ?thesis using False by (simp add: pow2_def)
qed

lemma floor_log2_bitlen:
  assumes "1 \<le> y"
  shows "\<lfloor>log 2 y\<rfloor> = bitlen \<lfloor>y\<rfloor> - 1"
proof -
  let ?n = "\<lfloor>y\<rfloor>"
  have n: "0 < ?n" using assms by linarith
  have B: "1 \<le> bitlen ?n" using n by (simp add: bitlen_alt_def)
  from bitlen_bounds [OF n] have lo: "2 ^ nat (bitlen ?n - 1) \<le> ?n" and hi: "?n < 2 ^ nat (bitlen ?n)"
    by simp_all
  have "real_of_int (2 ^ nat (bitlen ?n - 1)) \<le> real_of_int ?n"
    using lo by (simp only: of_int_le_iff)
  then have "(2::real) ^ nat (bitlen ?n - 1) \<le> real_of_int ?n"
    by (simp only: of_int_power of_int_numeral)
  then have 1: "2 ^ nat (bitlen ?n - 1) \<le> y"
    by (rule order_trans) (rule of_int_floor_le)
  have "?n + 1 \<le> 2 ^ nat (bitlen ?n)" using hi by simp
  then have "real_of_int (?n + 1) \<le> real_of_int (2 ^ nat (bitlen ?n))"
    by (simp only: of_int_le_iff)
  then have "real_of_int (?n + 1) \<le> (2::real) ^ nat (bitlen ?n)"
    by (simp only: of_int_power of_int_numeral)
  moreover have "y < real_of_int (?n + 1)" by simp
  ultimately have 2: "y < 2 ^ nat (bitlen ?n)" by (rule less_le_trans [rotated])
  have p1: "(2::real) powr (of_int (bitlen ?n - 1)) = 2 ^ nat (bitlen ?n - 1)"
    using B pow2_powr [of "bitlen ?n - 1"] by (simp add: pow2_def)
  have p2: "(2::real) powr (of_int (bitlen ?n - 1 + 1)) = 2 ^ nat (bitlen ?n)"
    using B pow2_powr [of "bitlen ?n"] by (simp add: pow2_def)
  have "0 < y" using assms by simp
  then show ?thesis
    using floor_log_eq_powr_iff [of y 2 "bitlen ?n - 1"] 1 2 p1 p2 by simp
qed

lemma binade_log:
  assumes "x \<noteq> 0"
  shows "binade x = \<lfloor>log 2 \<bar>x\<bar>\<rfloor>"
proof -
  define k where "k = nat (bitlen \<lceil>1 / \<bar>x\<bar>\<rceil>)"
  have pos: "0 < \<bar>x\<bar>" using assms by simp
  have c: "0 < \<lceil>1 / \<bar>x\<bar>\<rceil>" using pos by (simp add: ceiling_less_iff less_ceiling_iff)
  from bitlen_bounds [OF c] have "\<lceil>1 / \<bar>x\<bar>\<rceil> < 2 ^ k" by (simp add: k_def)
  then have "real_of_int \<lceil>1 / \<bar>x\<bar>\<rceil> < real_of_int (2 ^ k)" by (simp only: of_int_less_iff)
  then have "real_of_int \<lceil>1 / \<bar>x\<bar>\<rceil> < (2::real) ^ k"
    by (simp only: of_int_power of_int_numeral)
  moreover have "1 / \<bar>x\<bar> \<le> real_of_int \<lceil>1 / \<bar>x\<bar>\<rceil>" by (rule le_of_int_ceiling)
  ultimately have "1 / \<bar>x\<bar> < 2 ^ k" by (rule le_less_trans [rotated])
  then have one: "1 \<le> \<bar>x\<bar> * 2 ^ k" using pos by (simp add: divide_less_eq mult.commute)
  have "log 2 (\<bar>x\<bar> * 2 ^ k) = log 2 \<bar>x\<bar> + real k"
    using pos by (simp add: log_mult log_nat_power)
  then have "\<lfloor>log 2 (\<bar>x\<bar> * 2 ^ k)\<rfloor> = \<lfloor>log 2 \<bar>x\<bar>\<rfloor> + int k" by simp
  then show ?thesis
    using floor_log2_bitlen [OF one] by (simp add: binade_def k_def [symmetric] Let_def)
qed

lemma binary64_code [code]:
  "binary64 x =
     (if x = 0 then 0
      else let e = binade x - 52
           in of_int (round_half_even (x / pow2 e)) * pow2 e)"
  by (simp add: binary64_def binade_log pow2_powr Let_def)

lemma round_half_even_ge: "of_int n \<le> x \<Longrightarrow> n \<le> round_half_even x"
proof -
  assume "of_int n \<le> x"
  then have "n \<le> \<lfloor>x\<rfloor>" by (simp add: le_floor_iff)
  then show ?thesis by (simp add: round_half_even_def Let_def)
qed

lemma round_half_even_le: "x \<le> of_int n \<Longrightarrow> round_half_even x \<le> n"
proof -
  assume x: "x \<le> of_int n"
  show ?thesis
  proof (cases "x = of_int n")
    case True
    then show ?thesis by (simp add: round_half_even_of_int)
  next
    case False
    then have "x < of_int n" using x by simp
    then have "\<lfloor>x\<rfloor> < n" by (simp add: floor_less_iff)
    then show ?thesis by (simp add: round_half_even_def Let_def)
  qed
qed

lemma binary64_scaled_bounds:
  assumes "x \<noteq> 0"
  shows "1 \<le> \<bar>x\<bar> / 2 powr (of_int (\<lfloor>log 2 \<bar>x\<bar>\<rfloor> - 52))"
proof -
  let ?L = "\<lfloor>log 2 \<bar>x\<bar>\<rfloor>"
  let ?P = "(2::real) powr (of_int (?L - 52))"
  have pos: "0 < \<bar>x\<bar>" using assms by simp
  have P: "0 < ?P" by simp
  have "2 powr (of_int ?L) \<le> \<bar>x\<bar>"
    using floor_log_eq_powr_iff [OF pos, of 2 ?L] by simp
  moreover have "?P \<le> 2 powr (of_int ?L)" by (rule powr_mono) simp_all
  ultimately have "?P \<le> \<bar>x\<bar>" by linarith
  then show ?thesis using P by (simp only: le_divide_eq) simp
qed

lemma binary64_pos: "0 < x \<Longrightarrow> 0 < binary64 x"
proof -
  assume x: "0 < x"
  let ?e = "\<lfloor>log 2 \<bar>x\<bar>\<rfloor> - 52"
  have "1 \<le> \<bar>x\<bar> / 2 powr (of_int ?e)" using binary64_scaled_bounds [of x] x by simp
  moreover have "\<bar>x\<bar> = x" using x by simp
  ultimately have "of_int 1 \<le> x / 2 powr (of_int ?e)" by simp
  then have "1 \<le> round_half_even (x / 2 powr (of_int ?e))" by (rule round_half_even_ge)
  then have "0 < real_of_int (round_half_even (x / 2 powr (of_int ?e)))" by simp
  then show ?thesis using x by (simp add: binary64_def Let_def)
qed

lemma binary64_neg: "x < 0 \<Longrightarrow> binary64 x < 0"
proof -
  assume x: "x < 0"
  let ?e = "\<lfloor>log 2 \<bar>x\<bar>\<rfloor> - 52"
  have "1 \<le> \<bar>x\<bar> / 2 powr (of_int ?e)" using binary64_scaled_bounds [of x] x by simp
  moreover have "\<bar>x\<bar> = - x" using x by simp
  ultimately have "1 \<le> - (x / 2 powr (of_int ?e))" by simp
  then have "x / 2 powr (of_int ?e) \<le> of_int (- 1)" by simp
  then have "round_half_even (x / 2 powr (of_int ?e)) \<le> - 1" by (rule round_half_even_le)
  then have "real_of_int (round_half_even (x / 2 powr (of_int ?e))) < 0" by simp
  then show ?thesis using x by (simp add: binary64_def Let_def mult_neg_pos)
qed

lemma round_half_even_mono:
  assumes "a \<le> b"
  shows "round_half_even a \<le> round_half_even b"
proof (cases "\<lfloor>a\<rfloor> = \<lfloor>b\<rfloor>")
  case True
  have "a - of_int \<lfloor>a\<rfloor> \<le> b - of_int \<lfloor>b\<rfloor>" using assms True by simp
  then show ?thesis using True by (auto simp: round_half_even_def Let_def)
next
  case False
  then have "\<lfloor>a\<rfloor> < \<lfloor>b\<rfloor>" using floor_mono [OF assms] by simp
  have "a \<le> of_int (\<lfloor>a\<rfloor> + 1)" by simp
  then have "round_half_even a \<le> \<lfloor>a\<rfloor> + 1" by (rule round_half_even_le)
  moreover have "\<lfloor>b\<rfloor> \<le> round_half_even b" by (rule round_half_even_ge) simp
  ultimately show ?thesis using \<open>\<lfloor>a\<rfloor> < \<lfloor>b\<rfloor>\<close> by simp
qed

lemma binary64_binade_bounds:
  assumes "0 < x"
  shows "2 powr (of_int \<lfloor>log 2 x\<rfloor>) \<le> binary64 x"
    and "binary64 x \<le> 2 powr (of_int (\<lfloor>log 2 x\<rfloor> + 1))"
proof -
  let ?L = "\<lfloor>log 2 x\<rfloor>"
  let ?P = "(2::real) powr (of_int (?L - 52))"
  have P: "0 < ?P" by simp
  have b: "2 powr (of_int ?L) \<le> x" "x < 2 powr (of_int (?L + 1))"
    using floor_log_eq_powr_iff [OF assms, of 2 ?L] by simp_all
  have e52: "(2::real) powr (of_int ?L) = 2 ^ 52 * ?P"
  proof -
    have "(2::real) powr (of_int ?L) = 2 powr (52 + of_int (?L - 52))" by simp
    also have "\<dots> = 2 powr 52 * ?P" by (simp only: powr_add)
    finally show ?thesis by simp
  qed
  have e53: "(2::real) powr (of_int (?L + 1)) = 2 ^ 53 * ?P"
  proof -
    have "(2::real) powr (of_int (?L + 1)) = 2 powr (53 + of_int (?L - 52))"
      by (simp add: add.commute)
    also have "\<dots> = 2 powr 53 * ?P" by (simp only: powr_add)
    finally show ?thesis by simp
  qed
  have val: "binary64 x = of_int (round_half_even (x / ?P)) * ?P"
    using assms by (simp add: binary64_def Let_def)
  have "of_int (2 ^ 52) \<le> x / ?P" using b(1) P unfolding e52 by (simp add: le_divide_eq)
  then have "2 ^ 52 \<le> round_half_even (x / ?P)" by (rule round_half_even_ge)
  then have "real_of_int (2 ^ 52) \<le> real_of_int (round_half_even (x / ?P))"
    by (simp only: of_int_le_iff)
  then have "2 ^ 52 * ?P \<le> of_int (round_half_even (x / ?P)) * ?P"
    using P by (simp only: mult_le_cancel_right_pos) simp
  then show "2 powr (of_int ?L) \<le> binary64 x" unfolding e52 val .
  have "x / ?P \<le> of_int (2 ^ 53)" using b(2) P unfolding e53 by (simp add: divide_le_eq)
  then have "round_half_even (x / ?P) \<le> 2 ^ 53" by (rule round_half_even_le)
  then have "real_of_int (round_half_even (x / ?P)) \<le> real_of_int (2 ^ 53)"
    by (simp only: of_int_le_iff)
  then have "of_int (round_half_even (x / ?P)) * ?P \<le> 2 ^ 53 * ?P"
    using P by (simp only: mult_le_cancel_right_pos) simp
  then show "binary64 x \<le> 2 powr (of_int (?L + 1))" unfolding e53 val .
qed

lemma binary64_mono:
  assumes "0 \<le> x" and "x \<le> y"
  shows "binary64 x \<le> binary64 y"
proof (cases "x = 0")
  case True
  show ?thesis
  proof (cases "y = 0")
    case True
    then show ?thesis using \<open>x = 0\<close> by simp
  next
    case False
    then have "0 < binary64 y" using assms \<open>x = 0\<close> by (intro binary64_pos) simp
    then show ?thesis using \<open>x = 0\<close> by (simp add: binary64_zero)
  qed
next
  case False
  then have x: "0 < x" and y: "0 < y" using assms by simp_all
  have le: "\<lfloor>log 2 x\<rfloor> \<le> \<lfloor>log 2 y\<rfloor>"
    using x assms(2) by (intro floor_mono) simp
  show ?thesis
  proof (cases "\<lfloor>log 2 x\<rfloor> = \<lfloor>log 2 y\<rfloor>")
    case True
    let ?P = "(2::real) powr (of_int (\<lfloor>log 2 y\<rfloor> - 52))"
    have "x / ?P \<le> y / ?P" using assms(2) by (simp add: divide_right_mono)
    then have "round_half_even (x / ?P) \<le> round_half_even (y / ?P)"
      by (rule round_half_even_mono)
    then have "real_of_int (round_half_even (x / ?P)) * ?P
                 \<le> real_of_int (round_half_even (y / ?P)) * ?P"
      by (intro mult_right_mono) simp_all
    then show ?thesis using x y True by (simp add: binary64_def Let_def)
  next
    case False
    then have "\<lfloor>log 2 x\<rfloor> + 1 \<le> \<lfloor>log 2 y\<rfloor>" using le by simp
    then have "(2::real) powr (of_int (\<lfloor>log 2 x\<rfloor> + 1)) \<le> 2 powr (of_int \<lfloor>log 2 y\<rfloor>)"
      by (intro powr_mono) simp_all
    then show ?thesis
      using binary64_binade_bounds(2) [OF x] binary64_binade_bounds(1) [OF y] by linarith
  qed
qed

lemma binary64_nonneg: "0 \<le> x \<Longrightarrow> 0 \<le> binary64 x"
  using binary64_pos [of x] binary64_zero by (cases "x = 0") (simp_all add: less_imp_le)

lemma rnd_zero: "rnd md 0 = 0"
  by (cases md) (simp_all add: binary64_zero)

lemma rnd_pos: "0 < x \<Longrightarrow> 0 < rnd md x"
  by (cases md) (simp_all add: binary64_pos)

lemma rnd_eq_0_iff: "rnd md x = 0 \<longleftrightarrow> x = 0"
proof (cases md)
  case Exact
  then show ?thesis by simp
next
  case Binary64
  have "binary64 x = 0 \<longleftrightarrow> x = 0"
    using binary64_pos [of x] binary64_neg [of x] binary64_zero
    by (cases "x = 0"; cases "0 < x") auto
  then show ?thesis using Binary64 by simp
qed

text \<open>The square of the C library, and the relative error of one operation.\<close>

lemma binade_scale:
  assumes "x \<noteq> 0"
  shows "2 ^ 52 * 2 powr (of_int (\<lfloor>log 2 \<bar>x\<bar>\<rfloor> - 52)) \<le> \<bar>x\<bar>"
proof -
  let ?L = "\<lfloor>log 2 \<bar>x\<bar>\<rfloor>"
  let ?P = "(2::real) powr (of_int (?L - 52))"
  have pos: "0 < \<bar>x\<bar>" using assms by simp
  have "2 powr (of_int ?L) \<le> \<bar>x\<bar>"
    using floor_log_eq_powr_iff [OF pos, of 2 ?L] by simp
  moreover have "(2::real) powr (of_int ?L) = 2 ^ 52 * ?P"
  proof -
    have "(2::real) powr (of_int ?L) = 2 powr (52 + of_int (?L - 52))" by simp
    also have "\<dots> = 2 powr 52 * ?P" by (simp only: powr_add)
    finally show ?thesis by simp
  qed
  ultimately show ?thesis by simp
qed

lemma round_half_even_floor_ceiling:
  "round_half_even x = \<lfloor>x\<rfloor> \<or> round_half_even x = \<lceil>x\<rceil>"
proof (cases "x = of_int \<lfloor>x\<rfloor>")
  case True
  then have "round_half_even x = \<lfloor>x\<rfloor>"
    using round_half_even_of_int [of "\<lfloor>x\<rfloor>"] by simp
  then show ?thesis by simp
next
  case False
  then have "\<lceil>x\<rceil> = \<lfloor>x\<rfloor> + 1" by (simp add: ceiling_altdef)
  then show ?thesis by (simp add: round_half_even_def Let_def)
qed

lemma round_half_even_error: "\<bar>of_int (round_half_even x) - x\<bar> \<le> 1 / 2"
proof -
  have "of_int \<lfloor>x\<rfloor> \<le> x" "x < of_int \<lfloor>x\<rfloor> + 1" by linarith+
  then show ?thesis by (auto simp: round_half_even_def Let_def)
qed

lemma binary64_error: "\<bar>binary64 x - x\<bar> \<le> \<bar>x\<bar> / 2 ^ 53"
proof (cases "x = 0")
  case True
  then show ?thesis by (simp add: binary64_zero)
next
  case False
  let ?P = "(2::real) powr (of_int (\<lfloor>log 2 \<bar>x\<bar>\<rfloor> - 52))"
  let ?n = "round_half_even (x / ?P)"
  have P: "0 < ?P" by simp
  have val: "binary64 x = of_int ?n * ?P" using False by (simp add: binary64_def Let_def)
  have "binary64 x - x = (of_int ?n - x / ?P) * ?P" using P by (simp add: val algebra_simps)
  then have "\<bar>binary64 x - x\<bar> = \<bar>of_int ?n - x / ?P\<bar> * ?P"
    using P by (simp add: abs_mult)
  also have "\<dots> \<le> 1 / 2 * ?P"
    using round_half_even_error [of "x / ?P"] P by (intro mult_right_mono) simp_all
  also have "\<dots> \<le> \<bar>x\<bar> / 2 ^ 53" using binade_scale [OF False] by simp
  finally show ?thesis .
qed

lemma faithful_error:
  assumes "0 \<le> y" and "f = binary64_down y \<or> f = binary64_up y"
  shows "\<bar>f - y\<bar> \<le> y / 2 ^ 52"
proof (cases "y = 0")
  case True
  then show ?thesis using assms(2) by (auto simp: binary64_down_def binary64_up_def)
next
  case False
  let ?P = "(2::real) powr (of_int (\<lfloor>log 2 \<bar>y\<bar>\<rfloor> - 52))"
  have P: "0 < ?P" by simp
  obtain n :: int where f: "f = of_int n * ?P" and n: "\<bar>of_int n - y / ?P\<bar> \<le> 1"
  proof -
    have "\<bar>of_int \<lfloor>y / ?P\<rfloor> - y / ?P\<bar> \<le> 1" "\<bar>of_int \<lceil>y / ?P\<rceil> - y / ?P\<bar> \<le> 1"
      by linarith+
    then show ?thesis
      using assms(2) False that by (auto simp: binary64_down_def binary64_up_def Let_def)
  qed
  have "f - y = (of_int n - y / ?P) * ?P" using P by (simp add: f algebra_simps)
  then have "\<bar>f - y\<bar> = \<bar>of_int n - y / ?P\<bar> * ?P" using P by (simp add: abs_mult)
  also have "\<dots> \<le> 1 * ?P" using n P by (intro mult_right_mono) simp_all
  also have "\<dots> \<le> y / 2 ^ 52" using binade_scale [OF False] assms(1) by simp
  finally show ?thesis .
qed

lemma faithful_pos:
  assumes "0 < y" and "f = binary64_down y \<or> f = binary64_up y"
  shows "0 < f"
proof -
  let ?P = "(2::real) powr (of_int (\<lfloor>log 2 \<bar>y\<bar>\<rfloor> - 52))"
  have P: "0 < ?P" by simp
  have a: "1 \<le> \<bar>y\<bar> / ?P" using assms(1) by (intro binary64_scaled_bounds) simp
  have "\<bar>y\<bar> / ?P = y / ?P" using assms(1) by simp
  then have "1 \<le> y / ?P" using a by (simp only:)
  then have one: "of_int 1 \<le> y / ?P" by (simp only: of_int_1)
  then have fl: "1 \<le> \<lfloor>y / ?P\<rfloor>" by (simp only: le_floor_iff)
  have ce: "\<lfloor>y / ?P\<rfloor> \<le> \<lceil>y / ?P\<rceil>" by (rule floor_le_ceiling)
  have "0 < \<lfloor>y / ?P\<rfloor>" "0 < \<lceil>y / ?P\<rceil>" using fl ce by linarith+
  then have "0 < real_of_int \<lfloor>y / ?P\<rfloor>" "0 < real_of_int \<lceil>y / ?P\<rceil>"
    by (simp_all only: of_int_0_less_iff)
  then have "0 < real_of_int \<lfloor>y / ?P\<rfloor> * ?P" "0 < real_of_int \<lceil>y / ?P\<rceil> * ?P"
    using P by simp_all
  then show ?thesis
    using assms by (auto simp: binary64_down_def binary64_up_def Let_def)
qed

lemma faithful_one:
  assumes "f = binary64_down 1 \<or> f = binary64_up 1"
  shows "f = 1"
proof -
  let ?P = "(2::real) powr (of_int (\<lfloor>log 2 \<bar>1\<bar>\<rfloor> - 52))"
  have P: "?P = 1 / 2 ^ 52"
    using powr_minus_divide [of "2::real" 52] by simp
  have "1 / ?P = of_int (2 ^ 52)" unfolding P by simp
  then have "\<lfloor>1 / ?P\<rfloor> = 2 ^ 52" "\<lceil>1 / ?P\<rceil> = 2 ^ 52"
    by (simp_all only: floor_of_int ceiling_of_int)
  then have "real_of_int \<lfloor>1 / ?P\<rfloor> * ?P = 1" "real_of_int \<lceil>1 / ?P\<rceil> * ?P = 1"
    unfolding P by simp_all
  then have "binary64_down 1 = 1" "binary64_up 1 = 1"
    unfolding binary64_down_def binary64_up_def Let_def by simp_all
  then show ?thesis using assms by auto
qed

lemma faithful_square_binary64: "faithful_square (\<lambda>x. binary64 (x ^ 2))"
  unfolding faithful_square_def
proof
  fix x :: real
  show "binary64 (x ^ 2) = binary64_down (x ^ 2) \<or> binary64 (x ^ 2) = binary64_up (x ^ 2)"
    using round_half_even_floor_ceiling [of "x ^ 2 / 2 powr (of_int (\<lfloor>log 2 \<bar>x ^ 2\<bar>\<rfloor> - 52))"]
    by (auto simp: binary64_def binary64_down_def binary64_up_def Let_def)
qed

lemma libm_square_faithful: "faithful_square libm_square"
  unfolding libm_square_def
  by (rule someI [where P = faithful_square, OF faithful_square_binary64])

lemma libm_square_cases:
  "libm_square x = binary64_down (x ^ 2) \<or> libm_square x = binary64_up (x ^ 2)"
  using libm_square_faithful by (simp add: faithful_square_def)

lemma square_zero: "square md 0 = 0"
  using libm_square_cases [of 0]
  by (cases md) (auto simp: binary64_down_def binary64_up_def)

lemma square_one: "square md 1 = 1"
  using libm_square_cases [of 1] faithful_one [of "libm_square 1"]
  by (cases md) simp_all

lemma square_pos: "x \<noteq> 0 \<Longrightarrow> 0 < square md x"
  using libm_square_cases [of x] faithful_pos [of "x ^ 2" "libm_square x"]
  by (cases md) simp_all

lemma square_nonneg: "0 \<le> square md x"
  using square_pos [of x md] square_zero [of md] by (cases "x = 0") (simp_all add: less_imp_le)

lemma square_eq_0_iff: "square md x = 0 \<longleftrightarrow> x = 0"
  using square_pos [of x md] square_zero [of md] by (cases "x = 0") auto

lemma rnd_error: "\<bar>rnd md x - x\<bar> \<le> unit_roundoff md * \<bar>x\<bar>"
  using binary64_error [of x] by (cases md) simp_all

lemma square_error: "\<bar>square md x - x ^ 2\<bar> \<le> 2 * unit_roundoff md * x ^ 2"
  using libm_square_cases [of x] faithful_error [of "x ^ 2" "libm_square x"]
  by (cases md) simp_all

subsection \<open>Index vectors\<close>

lemma mark_positions_Inr:
  "\<forall>i\<in>set ps. i < length v \<Longrightarrow>
   \<exists>v'. mark_positions v ps = Inr v' \<and> length v' = length v \<and>
        (\<forall>j<length v. v' ! j = (if j \<in> set ps then 1 else v ! j))"
proof (induction ps arbitrary: v)
  case Nil
  then show ?case by simp
next
  case (Cons i ps)
  have i: "i < length v" using Cons.prems by simp
  have "\<forall>k\<in>set ps. k < length (v[i := 1])" using Cons.prems by simp
  from Cons.IH [OF this] obtain v' where
    v': "mark_positions (v[i := 1]) ps = Inr v'" "length v' = length v"
        "\<forall>j<length v. v' ! j = (if j \<in> set ps then 1 else v[i := 1] ! j)"
    by auto
  have "\<forall>j<length v. v' ! j = (if j \<in> set (i # ps) then 1 else v ! j)"
    using v'(3) i by (auto simp: nth_list_update)
  with v'(1,2) i show ?case by (simp add: set_item_def)
qed

lemma shuffled_range:
  assumes "mset ps = mset [0..<d]"
  shows "distinct ps" "set ps = {0..<d}" "length ps = d"
proof -
  show "distinct ps" using assms by (metis distinct_upt mset_eq_imp_distinct_iff)
  show "set ps = {0..<d}" using assms by (metis mset_eq_setD set_upt)
  show "length ps = d" using assms by (metis length_upt mset_eq_length minus_nat.diff_0)
qed

lemma make_index_vector_Inr:
  assumes "mset ps = mset [0..<d]"
  shows "make_index_vector d m ps =
           Inr (map (\<lambda>j. if j \<in> set (take m ps) then 1 else 0) [0..<d])"
proof -
  have "\<forall>i\<in>set (take m ps). i < length (replicate d (0::int))"
    using shuffled_range(2) [OF assms] by (auto dest: in_set_takeD)
  from mark_positions_Inr [OF this] obtain v' where
    v': "mark_positions (replicate d 0) (take m ps) = Inr v'" "length v' = d"
        "\<forall>j<d. v' ! j = (if j \<in> set (take m ps) then 1 else 0)"
    by auto
  have "v' = map (\<lambda>j. if j \<in> set (take m ps) then 1 else 0) [0..<d]"
    using v'(2,3) by (intro nth_equalityI) auto
  with v'(1) show ?thesis by (simp add: make_index_vector_def)
qed

lemma count_marked:
  assumes "S \<subseteq> {0..<d}"
  shows "length (filter (\<lambda>x. x = 1) (map (\<lambda>j. if j \<in> S then 1 else (0::int)) [0..<d])) = card S"
    and "length (filter (\<lambda>x. x = 0) (map (\<lambda>j. if j \<in> S then 1 else (0::int)) [0..<d])) = d - card S"
proof -
  have fin: "finite S" using assms finite_subset by blast
  have 1: "S \<inter> {0..<d} = S" using assms by auto
  have 2: "{x. x \<notin> S} \<inter> {0..<d} = {0..<d} - S" by auto
  have "length (filter (\<lambda>x. x = 1) (map (\<lambda>j. if j \<in> S then 1 else (0::int)) [0..<d]))
        = length (filter (\<lambda>j. j \<in> S) [0..<d])"
    by (simp add: filter_map comp_def)
  also have "\<dots> = card S"
    by (simp add: distinct_length_filter 1)
  finally show "length (filter (\<lambda>x. x = 1) (map (\<lambda>j. if j \<in> S then 1 else (0::int)) [0..<d])) = card S" .
  have "length (filter (\<lambda>x. x = 0) (map (\<lambda>j. if j \<in> S then 1 else (0::int)) [0..<d]))
        = length (filter (\<lambda>j. j \<notin> S) [0..<d])"
    by (simp add: filter_map comp_def)
  also have "\<dots> = d - card S"
    using assms fin by (simp add: distinct_length_filter 2 card_Diff_subset)
  finally show "length (filter (\<lambda>x. x = 0) (map (\<lambda>j. if j \<in> S then 1 else (0::int)) [0..<d])) = d - card S" .
qed

lemma make_index_vector_shape:
  assumes "mset ps = mset [0..<d]"
  shows "\<exists>v. make_index_vector d m ps = Inr v \<and> length v = d \<and>
             length (filter (\<lambda>x. x = 1) v) = min m d \<and>
             length (filter (\<lambda>x. x = 0) v) = d - min m d"
proof -
  let ?S = "set (take m ps)"
  have sub: "?S \<subseteq> {0..<d}" using shuffled_range(2) [OF assms] by (auto dest: in_set_takeD)
  have "distinct (take m ps)" using shuffled_range(1) [OF assms] by simp
  then have card: "card ?S = min m d"
    using shuffled_range(3) [OF assms] by (simp add: distinct_card min.commute)
  show ?thesis
    using make_index_vector_Inr [OF assms, of m] count_marked [OF sub] card by simp
qed

lemma fill_index_vectors_Inr:
  assumes "is_shuffle shuffle"
  shows "distinct ws \<Longrightarrow> \<forall>w\<in>set ws. iv w = Some (replicate d 0) \<Longrightarrow>
    \<exists>iv'. fill_index_vectors d m shuffle iv ws = Inr iv' \<and>
          (\<forall>w. w \<notin> set ws \<longrightarrow> iv' w = iv w) \<and>
          (\<forall>w\<in>set ws. \<exists>v. iv' w = Some v \<and> make_index_vector d m (shuffle w [0..<d]) = Inr v)"
proof (induction ws arbitrary: iv)
  case Nil
  then show ?case by simp
next
  case (Cons word ws)
  have perm: "mset (shuffle word [0..<d]) = mset [0..<d]"
    using assms by (simp add: is_shuffle_def)
  from make_index_vector_Inr [OF perm, of m] obtain v where
    v: "make_index_vector d m (shuffle word [0..<d]) = Inr v" by blast
  have iv: "iv word = Some (replicate d 0)" using Cons.prems by simp
  have "\<forall>w\<in>set ws. (iv(word \<mapsto> v)) w = Some (replicate d 0)"
    using Cons.prems by auto
  have "distinct ws" using Cons.prems(1) by simp
  from Cons.IH [OF this \<open>\<forall>w\<in>set ws. (iv(word \<mapsto> v)) w = Some (replicate d 0)\<close>] obtain iv' where
    iv': "fill_index_vectors d m shuffle (iv(word \<mapsto> v)) ws = Inr iv'"
         "\<forall>w. w \<notin> set ws \<longrightarrow> iv' w = (iv(word \<mapsto> v)) w"
         "\<forall>w\<in>set ws. \<exists>v. iv' w = Some v \<and> make_index_vector d m (shuffle w [0..<d]) = Inr v"
    by blast
  have "fill_index_vectors d m shuffle iv (word # ws) = Inr iv'"
    using iv v iv'(1) by (simp add: make_index_vector_def)
  moreover have "\<forall>w. w \<notin> set (word # ws) \<longrightarrow> iv' w = iv w"
    using iv'(2) by auto
  moreover have "\<forall>w\<in>set (word # ws). \<exists>v. iv' w = Some v \<and> make_index_vector d m (shuffle w [0..<d]) = Inr v"
    using iv'(2,3) v Cons.prems(1) by auto
  ultimately show ?case by blast
qed

text \<open>
  Claim C4. For every term of the vocabulary the generated index vector has length \<open>d\<close>,
  exactly \<open>m\<close> entries equal to 1 and all other entries (\<open>d - m\<close> of them) equal to 0,
  whatever permutation the shuffle produces, given \<open>m \<le> d\<close>. The construction raises no
  exception and the table has exactly the vocabulary as its keys. The witness is at the
  configuration of the notebook, \<open>d = 200\<close> and \<open>m = 5\<close>.
\<close>

theorem index_vector_shape:
  assumes "is_shuffle shuffle" and "distinct vocabulary" and "m \<le> d"
  shows "\<exists>iv. index_vector d m shuffle vocabulary = Inr iv \<and> dom iv = set vocabulary \<and>
           (\<forall>word\<in>set vocabulary. \<exists>v. iv word = Some v \<and> length v = d \<and>
              length (filter (\<lambda>x. x = 1) v) = m \<and> length (filter (\<lambda>x. x = 0) v) = d - m)"
proof -
  let ?iv0 = "\<lambda>word. if word \<in> set vocabulary then Some (replicate d (0::int)) else None"
  have "\<forall>w\<in>set vocabulary. ?iv0 w = Some (replicate d 0)" by simp
  from fill_index_vectors_Inr [OF assms(1,2) this, of m] obtain iv where
    iv: "fill_index_vectors d m shuffle ?iv0 vocabulary = Inr iv"
        "\<forall>w. w \<notin> set vocabulary \<longrightarrow> iv w = ?iv0 w"
        "\<forall>w\<in>set vocabulary. \<exists>v. iv w = Some v \<and> make_index_vector d m (shuffle w [0..<d]) = Inr v"
    by blast
  have dom: "dom iv = set vocabulary"
    using iv(2,3) by (auto simp: dom_def) 
  have "\<exists>v. iv word = Some v \<and> length v = d \<and>
              length (filter (\<lambda>x. x = 1) v) = m \<and> length (filter (\<lambda>x. x = 0) v) = d - m"
    if "word \<in> set vocabulary" for word
  proof -
    have perm: "mset (shuffle word [0..<d]) = mset [0..<d]"
      using assms(1) by (simp add: is_shuffle_def)
    from iv(3) that obtain v where v: "iv word = Some v"
      "make_index_vector d m (shuffle word [0..<d]) = Inr v" by blast
    from make_index_vector_shape [OF perm, of m] v(2) assms(3)
    show ?thesis using v(1) by (auto simp: min_def)
  qed
  with iv(1) dom show ?thesis by (auto simp: index_vector_def)
qed

theorem index_vector_shape_witness:
  "is_shuffle (\<lambda>w xs. rev xs) \<and> distinct [''cat'', ''dog''] \<and> (5::nat) \<le> 200 \<and>
   (\<exists>iv. index_vector 200 5 (\<lambda>w xs. rev xs) [''cat'', ''dog''] = Inr iv \<and>
      dom iv = set [''cat'', ''dog''] \<and>
      (\<forall>word\<in>set [''cat'', ''dog'']. \<exists>v. iv word = Some v \<and> length v = 200 \<and>
         length (filter (\<lambda>x. x = 1) v) = 5 \<and> length (filter (\<lambda>x. x = 0) v) = 200 - 5))"
proof -
  have s: "is_shuffle (\<lambda>w xs. rev xs)" by (simp add: is_shuffle_def)
  have d: "distinct [''cat'', ''dog'']" by simp
  have m: "(5::nat) \<le> 200" by simp
  show ?thesis using s d m index_vector_shape [OF s d m] by blast
qed

text \<open>
  Claim C5 says that a configuration with \<open>d < m\<close> fails fast with an out-of-range
  condition. The code has no such check: the slice \<^verbatim>\<open>random_positions[:m]\<close> of a list of
  \<open>d\<close> positions is the whole list, and the construction returns a vector of \<open>d\<close> ones.
  With \<open>d = 2\<close> and \<open>m = 5\<close> the result is the vector \<open>[1, 1]\<close>, not an exception.
\<close>

theorem make_index_vector_no_failure: "make_index_vector 2 5 [1, 0] = Inr [1, 1]"
  by (simp add: make_index_vector_def set_item_def eval_nat_numeral)

text \<open>
  Claim C5 as amended: when \<open>d < m\<close>, index-vector construction does not fail; for every
  outcome of the shuffle it returns the vector of length \<open>d\<close> whose entries are all 1
  (\<open>d\<close> ones, fewer than \<open>m\<close>).
\<close>

theorem make_index_vector_saturates:
  assumes "d < m" and "mset ps = mset [0..<d]"
  shows "make_index_vector d m ps = Inr (replicate d 1)"
  using assms make_index_vector_Inr [of ps d m] shuffled_range [of ps d]
  by (auto intro!: nth_equalityI)

theorem make_index_vector_saturates_witness:
  "(3::nat) < 4 \<and> mset [2, 0, 1] = mset [0..<3] \<and>
   make_index_vector 3 4 [2, 0, 1] = Inr (replicate 3 1)"
proof -
  have l: "(3::nat) < 4" by simp
  have p: "mset [2, 0, 1] = mset [0..<3]" by (simp add: upt_rec)
  show ?thesis using l p make_index_vector_saturates [OF l p] by blast
qed

subsection \<open>Context vectors\<close>

lemma add_loop_Inr:
  "length pre = i \<Longrightarrow> length xs \<le> length rest \<Longrightarrow>
   add_loop md (pre @ rest) i xs =
     Inr (pre @ map2 (\<lambda>x y. rnd md (x + of_int y)) (take (length xs) rest) xs
            @ drop (length xs) rest)"
proof (induction xs arbitrary: pre rest i)
  case Nil
  then show ?case by simp
next
  case (Cons x xs)
  then obtain r rest' where rest: "rest = r # rest'" by (cases rest) auto
  have upd: "(pre @ rest)[i := rnd md ((pre @ rest) ! i + of_int x)]
               = (pre @ [rnd md (r + of_int x)]) @ rest'"
    using Cons.prems(1) rest by (simp add: list_update_append nth_append)
  have "add_loop md ((pre @ [rnd md (r + of_int x)]) @ rest') (Suc i) xs =
          Inr ((pre @ [rnd md (r + of_int x)])
               @ map2 (\<lambda>x y. rnd md (x + of_int y)) (take (length xs) rest') xs
               @ drop (length xs) rest')"
    using Cons.prems rest by (intro Cons.IH) simp_all
  then show ?case
    using Cons.prems(1) rest upd by simp
qed

lemma add_vector_Inr:
  assumes "length b = length a"
  shows "add_vector md a b = Inr (map2 (\<lambda>x y. rnd md (x + of_int y)) a b)"
  using add_loop_Inr [of "[]" 0 b a md] assms by (simp add: add_vector_def)

lemma add_vector_counts:
  assumes "length b = length c"
    and "md = Exact \<or> (\<forall>n\<in>set (map2 (+) c b). \<bar>n\<bar> < 2 ^ 53)"
  shows "add_vector md (map of_int c) b = Inr (map of_int (map2 (+) c b))"
proof -
  have "map2 (\<lambda>x y. rnd md (x + of_int y)) (map of_int c) b = map of_int (map2 (+) c b)"
  proof (rule nth_equalityI)
    show "length (map2 (\<lambda>x y. rnd md (x + of_int y)) (map of_int c) b)
            = length (map real_of_int (map2 (+) c b))" by simp
  next
    fix i assume "i < length (map2 (\<lambda>x y. rnd md (x + of_int y)) (map of_int c) b)"
    then have i: "i < length c" "i < length b" by simp_all
    have "rnd md (of_int (c ! i + b ! i)) = of_int (c ! i + b ! i)"
    proof (cases "md = Exact")
      case True
      then show ?thesis by simp
    next
      case False
      have "map2 (+) c b ! i \<in> set (map2 (+) c b)"
        using i by (intro nth_mem) simp
      then have "\<bar>c ! i + b ! i\<bar> < 2 ^ 53" using assms(2) False i by auto
      then show ?thesis by (rule rnd_of_int)
    qed
    then show "map2 (\<lambda>x y. rnd md (x + of_int y)) (map of_int c) b ! i
                 = map real_of_int (map2 (+) c b) ! i"
      using i by simp
  qed
  then show ?thesis using add_vector_Inr [of b "map of_int c" md] assms(1) by simp
qed

lemma add_words_counts:
  assumes "\<forall>w\<in>set ws. \<exists>b. iv w = Some b \<and> length b = d"
    and "md = Exact \<or>
         (\<forall>w\<in>set ws. \<forall>b. iv w = Some b \<longrightarrow> set b \<subseteq> {0, 1}) \<and>
         (\<forall>n\<in>set c. 0 \<le> n \<and> n + int (length ws) < 2 ^ 53)"
    and "length c = d"
  shows "\<exists>cv. add_words md iv (map of_int c) ws = Inr cv \<and> length cv = d \<and>
           (\<forall>i<d. cv ! i = of_int (c ! i + (\<Sum>w\<leftarrow>ws. the (iv w) ! i)))"
  using assms
proof (induction ws arbitrary: c)
  case Nil
  then show ?case by simp
next
  case (Cons w ws)
  from Cons.prems(1) obtain b where b: "iv w = Some b" "length b = d" by auto
  let ?c = "map2 (+) c b"
  have len: "length ?c = d" using b(2) Cons.prems(3) by simp
  have bound: "md = Exact \<or>
         (\<forall>w\<in>set ws. \<forall>b. iv w = Some b \<longrightarrow> set b \<subseteq> {0, 1}) \<and>
         (\<forall>n\<in>set ?c. 0 \<le> n \<and> n + int (length ws) < 2 ^ 53)"
  proof (cases "md = Exact")
    case True
    then show ?thesis by simp
  next
    case False
    then have h: "\<forall>w\<in>set (w # ws). \<forall>b. iv w = Some b \<longrightarrow> set b \<subseteq> {0, 1}"
      "\<forall>n\<in>set c. 0 \<le> n \<and> n + int (length (w # ws)) < 2 ^ 53"
      using Cons.prems(2) by auto
    have b01: "set b \<subseteq> {0, 1}" using h(1) b(1) by simp
    have "0 \<le> n \<and> n + int (length ws) < 2 ^ 53" if "n \<in> set ?c" for n
    proof -
      from that obtain x y where xy: "(x, y) \<in> set (zip c b)" "n = x + y" by auto
      have "x \<in> set c" "y \<in> set b" using xy(1) by (auto dest: set_zip_leftD set_zip_rightD)
      then have "0 \<le> x" "x + int (length (w # ws)) < 2 ^ 53" "y = 0 \<or> y = 1"
        using h(2) b01 by auto
      then show ?thesis using xy(2) by auto
    qed
    then show ?thesis using h(1) by auto
  qed
  have small: "md = Exact \<or> (\<forall>n\<in>set ?c. \<bar>n\<bar> < 2 ^ 53)"
  proof (cases "md = Exact")
    case True
    then show ?thesis by simp
  next
    case False
    then have "\<forall>n\<in>set ?c. 0 \<le> n \<and> n + int (length ws) < 2 ^ 53" using bound by simp
    then have "\<forall>n\<in>set ?c. \<bar>n\<bar> < 2 ^ 53" by fastforce
    then show ?thesis by simp
  qed
  have step: "add_vector md (map of_int c) b = Inr (map of_int ?c)"
    using add_vector_counts [of b c md] b(2) Cons.prems(3) small by simp
  have "\<forall>w\<in>set ws. \<exists>b. iv w = Some b \<and> length b = d" using Cons.prems(1) by simp
  from Cons.IH [OF this bound len] obtain cv where
    cv: "add_words md iv (map of_int ?c) ws = Inr cv" "length cv = d"
        "\<forall>i<d. cv ! i = of_int (?c ! i + (\<Sum>w\<leftarrow>ws. the (iv w) ! i))"
    by blast
  have "cv ! i = of_int (c ! i + (\<Sum>w\<leftarrow>w # ws. the (iv w) ! i))" if "i < d" for i
    using cv(3) that b Cons.prems(3) by simp
  then show ?case using b(1) step cv(1,2) by simp
qed


lemma fill_context_vectors_Inr:
  "distinct ds \<Longrightarrow> \<forall>doc\<in>set ds. cv doc = Some (replicate d 0) \<Longrightarrow>
   \<forall>doc\<in>set ds. \<exists>v. add_words md iv (replicate d 0) (map lower (words doc)) = Inr v \<Longrightarrow>
   \<exists>cv'. fill_context_vectors md iv words cv ds = Inr cv' \<and>
         (\<forall>x. x \<notin> set ds \<longrightarrow> cv' x = cv x) \<and>
         (\<forall>doc\<in>set ds. \<exists>v. cv' doc = Some v \<and>
            add_words md iv (replicate d 0) (map lower (words doc)) = Inr v)"
proof (induction ds arbitrary: cv)
  case Nil
  then show ?case by simp
next
  case (Cons doc ds)
  from Cons.prems(3) obtain v where
    v: "add_words md iv (replicate d 0) (map lower (words doc)) = Inr v" by auto
  have cvd: "cv doc = Some (replicate d 0)" using Cons.prems(2) by simp
  have 1: "distinct ds" using Cons.prems(1) by simp
  have 2: "\<forall>x\<in>set ds. (cv(doc \<mapsto> v)) x = Some (replicate d 0)"
    using Cons.prems(1,2) by auto
  have 3: "\<forall>x\<in>set ds. \<exists>v. add_words md iv (replicate d 0) (map lower (words x)) = Inr v"
    using Cons.prems(3) by simp
  from Cons.IH [OF 1 2 3] obtain cv' where
    cv': "fill_context_vectors md iv words (cv(doc \<mapsto> v)) ds = Inr cv'"
         "\<forall>x. x \<notin> set ds \<longrightarrow> cv' x = (cv(doc \<mapsto> v)) x"
         "\<forall>x\<in>set ds. \<exists>v. cv' x = Some v \<and>
            add_words md iv (replicate d 0) (map lower (words x)) = Inr v"
    by blast
  have "fill_context_vectors md iv words cv (doc # ds) = Inr cv'"
    using cvd v cv'(1) by simp
  moreover have "\<forall>x. x \<notin> set (doc # ds) \<longrightarrow> cv' x = cv x"
    using cv'(2) by auto
  moreover have "\<forall>x\<in>set (doc # ds). \<exists>v. cv' x = Some v \<and>
            add_words md iv (replicate d 0) (map lower (words x)) = Inr v"
    using cv'(2,3) v Cons.prems(1) by auto
  ultimately show ?case by blast
qed

lemma of_int_sum_list_map: "real_of_int (\<Sum>x\<leftarrow>xs. f x) = (\<Sum>x\<leftarrow>xs. real_of_int (f x))"
  by (induction xs) simp_all

text \<open>
  Claim C1. After aggregation the context vector of every document is the elementwise sum,
  over every token occurrence of the document (lower-cased), of the index vector of that
  token; a token that occurs twice contributes twice. The tokens are in the vocabulary
  and the index vectors have dimension \<open>d\<close>. The sum is exact in exact arithmetic, and
  also in binary64 arithmetic for index vectors of zeros and ones and documents of fewer
  than \<open>2\<^sup>5\<^sup>3\<close> tokens. The witness is a document with the tokens \<open>A\<close>, \<open>b\<close>, \<open>a\<close>, whose
  vector is twice the index vector of \<open>a\<close> plus the index vector of \<open>b\<close>.
\<close>

theorem context_vector_is_sum:
  assumes docs: "distinct documents"
    and vocab: "\<forall>doc\<in>set documents. \<forall>w\<in>set (words doc).
                  \<exists>b. iv (lower w) = Some b \<and> length b = d"
    and exact: "md = Exact \<or>
                  (\<forall>w b. iv w = Some b \<longrightarrow> set b \<subseteq> {0, 1}) \<and>
                  (\<forall>doc\<in>set documents. length (words doc) < 2 ^ 53)"
  shows "\<exists>cv. context_vector md d iv words documents = Inr cv \<and>
           (\<forall>doc\<in>set documents. \<exists>v. cv doc = Some v \<and> length v = d \<and>
              (\<forall>i<d. v ! i = (\<Sum>w\<leftarrow>words doc. real_of_int (the (iv (lower w)) ! i))))"
proof -
  have one: "\<exists>v. add_words md iv (replicate d 0) (map lower (words doc)) = Inr v \<and>
               length v = d \<and>
               (\<forall>i<d. v ! i = (\<Sum>w\<leftarrow>words doc. real_of_int (the (iv (lower w)) ! i)))"
    if doc: "doc \<in> set documents" for doc
  proof -
    let ?ws = "map lower (words doc)"
    let ?c = "replicate d (0::int)"
    have 1: "\<forall>w\<in>set ?ws. \<exists>b. iv w = Some b \<and> length b = d"
      using vocab doc by auto
    have 2: "md = Exact \<or>
         (\<forall>w\<in>set ?ws. \<forall>b. iv w = Some b \<longrightarrow> set b \<subseteq> {0, 1}) \<and>
         (\<forall>n\<in>set ?c. 0 \<le> n \<and> n + int (length ?ws) < 2 ^ 53)"
    proof (cases "md = Exact")
      case True
      then show ?thesis by simp
    next
      case False
      then have "length (words doc) < 2 ^ 53" using exact doc by simp
      then have "int (length (words doc)) < int (2 ^ 53)" by (simp only: of_nat_less_iff)
      then have "int (length (map lower (words doc))) < 2 ^ 53" by simp
      moreover have "\<forall>w b. iv w = Some b \<longrightarrow> set b \<subseteq> {0, 1}" using exact False by simp
      ultimately show ?thesis by simp
    qed
    have 3: "length ?c = d" by simp
    from add_words_counts [OF 1 2 3] obtain v where
      v: "add_words md iv (map of_int ?c) ?ws = Inr v" "length v = d"
         "\<forall>i<d. v ! i = of_int (?c ! i + (\<Sum>w\<leftarrow>?ws. the (iv w) ! i))"
      by blast
    have "v ! i = (\<Sum>w\<leftarrow>words doc. real_of_int (the (iv (lower w)) ! i))" if "i < d" for i
      using v(3) that by (simp add: of_int_sum_list_map comp_def)
    then show ?thesis using v(1,2) by simp
  qed
  let ?cv0 = "\<lambda>doc. if doc \<in> set documents then Some (replicate d (0::real)) else None"
  have a: "\<forall>doc\<in>set documents. ?cv0 doc = Some (replicate d 0)" by simp
  have b: "\<forall>doc\<in>set documents.
             \<exists>v. add_words md iv (replicate d 0) (map lower (words doc)) = Inr v"
    using one by blast
  from fill_context_vectors_Inr [OF docs a b] obtain cv where
    cv: "fill_context_vectors md iv words ?cv0 documents = Inr cv"
        "\<forall>doc\<in>set documents. \<exists>v. cv doc = Some v \<and>
            add_words md iv (replicate d 0) (map lower (words doc)) = Inr v"
    by blast
  have "\<exists>v. cv doc = Some v \<and> length v = d \<and>
              (\<forall>i<d. v ! i = (\<Sum>w\<leftarrow>words doc. real_of_int (the (iv (lower w)) ! i)))"
    if doc: "doc \<in> set documents" for doc
    using one [OF doc] cv(2) doc by fastforce
  then show ?thesis using cv(1) by (auto simp: context_vector_def)
qed



theorem context_vector_is_sum_witness:
  "distinct [''d1''] \<and>
   (\<exists>cv v. context_vector Binary64 4 [''a'' \<mapsto> [1, 0, 1, 0], ''b'' \<mapsto> [0, 1, 1, 0]]
              (\<lambda>doc. [''A'', ''b'', ''a'']) [''d1''] = Inr cv \<and>
      cv ''d1'' = Some v \<and> length v = 4 \<and> v ! 0 = 2 \<and> v ! 1 = 1 \<and> v ! 2 = 3 \<and> v ! 3 = 0)"
proof -
  let ?iv = "[''a'' \<mapsto> [1, 0, 1, 0], ''b'' \<mapsto> [0, 1, 1, 0::int]]"
  let ?words = "\<lambda>doc::string. [''A'', ''b'', ''a'']"
  have l: "lower ''A'' = ''a''" "lower ''b'' = ''b''" "lower ''a'' = ''a''"
    by code_simp+
  have docs: "distinct [''d1'']" by simp
  have vocab: "\<forall>doc\<in>set [''d1'']. \<forall>w\<in>set (?words doc).
                  \<exists>b. ?iv (lower w) = Some b \<and> length b = 4"
    by (simp add: l)
  have exact: "Binary64 = Exact \<or>
                  (\<forall>w b. ?iv w = Some b \<longrightarrow> set b \<subseteq> {0, 1}) \<and>
                  (\<forall>doc\<in>set [''d1'']. length (?words doc) < 2 ^ 53)"
  proof -
    have "\<forall>w b. ?iv w = Some b \<longrightarrow> set b \<subseteq> {0, 1}"
      by (auto split: if_splits)
    moreover have "\<forall>doc\<in>set [''d1'']. length (?words doc) < 2 ^ 53" by simp
    ultimately show ?thesis by blast
  qed
  from context_vector_is_sum [OF docs vocab exact] obtain cv where
    cv: "context_vector Binary64 4 ?iv ?words [''d1''] = Inr cv"
    and every: "\<forall>doc\<in>set [''d1'']. \<exists>v. cv doc = Some v \<and> length v = 4 \<and>
              (\<forall>i<4. v ! i = (\<Sum>w\<leftarrow>?words doc. real_of_int (the (?iv (lower w)) ! i)))"
    by blast
  have "\<exists>v. cv ''d1'' = Some v \<and> length v = 4 \<and>
              (\<forall>i<4. v ! i = (\<Sum>w\<leftarrow>?words ''d1''. real_of_int (the (?iv (lower w)) ! i)))"
    by (rule bspec [OF every]) simp
  then obtain v where
    v: "cv ''d1'' = Some v" "length v = 4"
       "\<forall>i<4. v ! i = (\<Sum>w\<leftarrow>?words ''d1''. real_of_int (the (?iv (lower w)) ! i))"
    by blast
  have "v ! 0 = 2 \<and> v ! 1 = 1 \<and> v ! 2 = 3 \<and> v ! 3 = 0"
    using v(3) by (simp add: l)
  then show ?thesis using docs cv v(1,2) by blast
qed

subsection \<open>Vector length, normalization and cosine distance\<close>

lemma foldl_add_sum_list: "foldl (\<lambda>acc x. acc + x) s xs = s + sum_list (xs::real list)"
  by (induction xs arbitrary: s) simp_all

lemma py_sum_Exact: "py_sum Exact xs = sum_list xs"
  by (simp add: py_sum_def foldl_add_sum_list)

lemma vector_length_Exact: "vector_length Exact v = sqrt (\<Sum>x\<leftarrow>v. x\<^sup>2)"
proof -
  have "square Exact = (\<lambda>x. x\<^sup>2)" by (rule ext) simp
  then show ?thesis by (simp add: vector_length_def py_sum_Exact)
qed

lemma sum_squares_nonneg: "0 \<le> (\<Sum>x\<leftarrow>v. (x::real)\<^sup>2)"
  by (rule sum_list_nonneg) auto

lemma vector_length_Exact_nonneg: "0 \<le> vector_length Exact v"
  by (simp add: vector_length_Exact sum_squares_nonneg)

lemma py_sum_zeros: "\<forall>x\<in>set xs. x = 0 \<Longrightarrow> py_sum md xs = 0"
proof -
  have "\<forall>x\<in>set xs. x = 0 \<Longrightarrow> foldl (\<lambda>acc x. rnd md (acc + x)) 0 xs = 0"
    by (induction xs) (simp_all add: rnd_zero)
  then show "\<forall>x\<in>set xs. x = 0 \<Longrightarrow> py_sum md xs = 0" by (simp add: py_sum_def)
qed

lemma vector_length_zeros: "\<forall>x\<in>set v. x = 0 \<Longrightarrow> vector_length md v = 0"
proof -
  assume z: "\<forall>x\<in>set v. x = 0"
  then have "\<forall>y\<in>set (map (square md) v). y = 0" by (auto simp: square_zero)
  then have "py_sum md (map (square md) v) = 0" by (rule py_sum_zeros)
  then show ?thesis by (simp add: vector_length_def rnd_zero)
qed

lemma comprehension_Inr:
  "\<forall>x\<in>set xs. f x = Inr (g x) \<Longrightarrow> comprehension f xs = Inr (map g xs)"
  by (induction xs) simp_all

lemma normalize_Inr:
  "vector_length md a \<noteq> 0 \<Longrightarrow>
     normalize_vec md a = Inr (map (\<lambda>x. rnd md (x / vector_length md a)) a)"
  unfolding normalize_vec_def by (rule comprehension_Inr) (simp add: truediv_def)

lemma normalize_zero_division:
  "a \<noteq> [] \<Longrightarrow> vector_length md a = 0 \<Longrightarrow> normalize_vec md a = Inl ZeroDivisionError"
  by (cases a) (simp_all add: normalize_vec_def truediv_def)

lemma foldl_rnd_pos:
  "0 < acc \<Longrightarrow> \<forall>x\<in>set xs. 0 \<le> x \<Longrightarrow> 0 < foldl (\<lambda>acc x. rnd md (acc + x)) acc xs"
proof (induction xs arbitrary: acc)
  case Nil
  then show ?case by simp
next
  case (Cons x xs)
  have "0 < rnd md (acc + x)" using Cons.prems by (intro rnd_pos) simp
  then show ?case using Cons.prems Cons.IH [of "rnd md (acc + x)"] by simp
qed

lemma py_sum_pos:
  assumes "\<forall>x\<in>set xs. 0 \<le> x" and "\<exists>x\<in>set xs. 0 < x"
  shows "0 < py_sum md xs"
proof -
  have "0 \<le> acc \<Longrightarrow> \<forall>x\<in>set xs. 0 \<le> x \<Longrightarrow> \<exists>x\<in>set xs. 0 < x \<Longrightarrow>
        0 < foldl (\<lambda>acc x. rnd md (acc + x)) acc xs" for acc
  proof (induction xs arbitrary: acc)
    case Nil
    then show ?case by simp
  next
    case (Cons x xs)
    show ?case
    proof (cases "0 < acc + x")
      case True
      then have "0 < rnd md (acc + x)" by (rule rnd_pos)
      then show ?thesis using foldl_rnd_pos [of "rnd md (acc + x)" xs md] Cons.prems(2) by simp
    next
      case False
      then have z: "acc = 0" "x = 0" using Cons.prems(1,2) by auto
      then have "\<exists>x\<in>set xs. 0 < x" using Cons.prems(3) by simp
      then show ?thesis using Cons.IH [of 0] Cons.prems(2) z by (simp add: rnd_zero)
    qed
  qed
  then show ?thesis using assms by (simp add: py_sum_def)
qed

lemma vector_length_nonzero_iff: "vector_length md v \<noteq> 0 \<longleftrightarrow> (\<exists>x\<in>set v. x \<noteq> 0)"
proof
  assume "vector_length md v \<noteq> 0"
  then show "\<exists>x\<in>set v. x \<noteq> 0" using vector_length_zeros [of v md] by blast
next
  assume "\<exists>x\<in>set v. x \<noteq> 0"
  then obtain x where x: "x \<in> set v" "x \<noteq> 0" by blast
  let ?sq = "map (square md) v"
  have "0 < square md x" using x(2) by (rule square_pos)
  then have 1: "\<exists>y\<in>set ?sq. 0 < y" using x(1) by auto
  have 2: "\<forall>y\<in>set ?sq. 0 \<le> y" by (auto simp: square_nonneg)
  have "0 < py_sum md ?sq" using py_sum_pos [OF 2 1] .
  then have "0 < sqrt (py_sum md ?sq)" by simp
  then have "0 < rnd md (sqrt (py_sum md ?sq))" by (rule rnd_pos)
  then show "vector_length md v \<noteq> 0" by (simp add: vector_length_def)
qed

lemma normalize_vec_nonzero:
  assumes "vector_length md v \<noteq> 0"
  shows "\<exists>nv. normalize_vec md v = Inr nv \<and> length nv = length v \<and> vector_length md nv \<noteq> 0"
proof -
  let ?L = "vector_length md v"
  let ?nv = "map (\<lambda>x. rnd md (x / ?L)) v"
  from assms obtain x where x: "x \<in> set v" "x \<noteq> 0"
    using vector_length_nonzero_iff [of md v] by blast
  have "rnd md (x / ?L) \<noteq> 0" using x(2) assms by (simp add: rnd_eq_0_iff)
  then have "\<exists>y\<in>set ?nv. y \<noteq> 0" using x(1) by auto
  then have "vector_length md ?nv \<noteq> 0" by (simp only: vector_length_nonzero_iff)
  then show ?thesis using normalize_Inr [OF assms] by simp
qed

text \<open>
  Claim C6 says that normalizing an all-zero vector surfaces a dedicated degenerate-vector
  failure raised by the length/normalize code itself, not a raw division by zero. The code
  has no such handling: \<open>vector_length\<close> returns 0 and the division
  \<^verbatim>\<open>x / vector_length(a)\<close> raises Python's own ZeroDivisionError.
\<close>

theorem normalize_raw_zero_division: "normalize_vec Binary64 [0, 0] = Inl ZeroDivisionError"
  by (rule normalize_zero_division) (simp_all add: vector_length_zeros)

text \<open>
  Claim C6 as amended: for a non-empty all-zero vector \<open>vector_length\<close> returns 0 without
  failing and \<open>normalize_vec\<close> raises the interpreter's ZeroDivisionError from its division;
  it does not return a vector (so no vector of NaNs), and it raises no dedicated error.
\<close>

theorem normalize_zero_vector:
  "v \<noteq> [] \<Longrightarrow> \<forall>x\<in>set v. x = 0 \<Longrightarrow>
     vector_length md v = 0 \<and> normalize_vec md v = Inl ZeroDivisionError"
  using vector_length_zeros [of v md] normalize_zero_division [of v md] by simp

theorem normalize_zero_vector_witness:
  "[0, 0, 0] \<noteq> ([]::real list) \<and>
   vector_length Binary64 [0, 0, 0] = 0 \<and> normalize_vec Binary64 [0, 0, 0] = Inl ZeroDivisionError"
proof -
  have n: "[0, 0, 0] \<noteq> ([]::real list)" by simp
  have z: "\<forall>x\<in>set [0, 0, 0::real]. x = 0" by simp
  show ?thesis using n normalize_zero_vector [OF n z, of Binary64] by blast
qed

lemma sum_list_divide_const: "(\<Sum>x\<leftarrow>xs. f x / c) = (\<Sum>x\<leftarrow>xs. f x) / (c::real)"
  by (induction xs) (simp_all add: add_divide_distrib)

text \<open>
  The error of the computed length. Every rounding and every square changes a
  nonnegative number by a factor close to 1; the factors of the \<open>n\<close> additions, the
  square, the square root and the divisions multiply.
\<close>

lemma unit_roundoff_bounds: "0 \<le> unit_roundoff md" "unit_roundoff md \<le> 1 / 4"
  by (cases md; simp)+

lemma within_factor_rnd:
  assumes "0 \<le> x"
  shows "within_factor (1 - unit_roundoff md) (rnd md x) x"
proof -
  let ?u = "unit_roundoff md"
  have u: "0 \<le> ?u" "?u \<le> 1 / 4" by (rule unit_roundoff_bounds)+
  have "\<bar>rnd md x - x\<bar> \<le> ?u * x" using rnd_error [of md x] assms by simp
  then have lo: "(1 - ?u) * x \<le> rnd md x" and hi: "rnd md x \<le> (1 + ?u) * x"
    by (simp_all add: algebra_simps abs_le_iff)
  have "(1 - ?u) * rnd md x \<le> (1 - ?u) * ((1 + ?u) * x)"
    using hi u by (intro mult_left_mono) simp_all
  also have "\<dots> = x - ?u * ?u * x" by (simp add: algebra_simps)
  also have "\<dots> \<le> x" using assms by simp
  finally show ?thesis using lo by (simp add: within_factor_def)
qed

lemma within_factor_square:
  "within_factor (1 - 2 * unit_roundoff md) (square md x) (x ^ 2)"
proof -
  let ?u = "2 * unit_roundoff md"
  have u: "0 \<le> ?u" "?u \<le> 1" using unit_roundoff_bounds [of md] by simp_all
  have "\<bar>square md x - x ^ 2\<bar> \<le> ?u * x ^ 2" by (rule square_error)
  then have lo: "(1 - ?u) * x ^ 2 \<le> square md x" and hi: "square md x \<le> (1 + ?u) * x ^ 2"
    by (simp_all add: algebra_simps abs_le_iff)
  have "(1 - ?u) * square md x \<le> (1 - ?u) * ((1 + ?u) * x ^ 2)"
    using hi u by (intro mult_left_mono) simp_all
  also have "\<dots> = x ^ 2 - ?u * ?u * x ^ 2" by (simp add: algebra_simps)
  also have "\<dots> \<le> x ^ 2" by simp
  finally show ?thesis using lo by (simp add: within_factor_def)
qed

lemma within_factor_trans:
  assumes "0 \<le> p" and "0 \<le> q" and "within_factor p a b" and "within_factor q b c"
  shows "within_factor (p * q) a c"
proof -
  have ab: "p * b \<le> a" "p * a \<le> b" using assms(3) by (simp_all add: within_factor_def)
  have bc: "q * c \<le> b" "q * b \<le> c" using assms(4) by (simp_all add: within_factor_def)
  have "p * (q * c) \<le> p * b" using bc(1) assms(1) by (rule mult_left_mono)
  then have "p * (q * c) \<le> a" using ab(1) by (rule order_trans)
  then have 1: "p * q * c \<le> a" by (simp only: mult.assoc)
  have "q * (p * a) \<le> q * b" using ab(2) assms(2) by (rule mult_left_mono)
  then have "q * (p * a) \<le> c" using bc(2) by (rule order_trans)
  moreover have "q * (p * a) = p * q * a" by simp
  ultimately have 2: "p * q * a \<le> c" by (simp only:)
  show ?thesis unfolding within_factor_def using 1 2 by (rule conjI)
qed

lemma within_factor_sum_list:
  "\<forall>x\<in>set xs. within_factor q (f x) (g x) \<Longrightarrow>
     within_factor q (\<Sum>x\<leftarrow>xs. f x) (\<Sum>x\<leftarrow>xs. g x)"
proof (induction xs)
  case Nil
  then show ?case by (simp add: within_factor_def)
next
  case (Cons x xs)
  have x: "q * g x \<le> f x" "q * f x \<le> g x"
    using Cons.prems by (simp_all add: within_factor_def)
  have ih: "q * (\<Sum>x\<leftarrow>xs. g x) \<le> (\<Sum>x\<leftarrow>xs. f x)" "q * (\<Sum>x\<leftarrow>xs. f x) \<le> (\<Sum>x\<leftarrow>xs. g x)"
    using Cons.IH Cons.prems by (simp_all add: within_factor_def)
  have "q * g x + q * (\<Sum>x\<leftarrow>xs. g x) \<le> f x + (\<Sum>x\<leftarrow>xs. f x)"
    using x(1) ih(1) by (rule add_mono)
  moreover have "q * f x + q * (\<Sum>x\<leftarrow>xs. f x) \<le> g x + (\<Sum>x\<leftarrow>xs. g x)"
    using x(2) ih(2) by (rule add_mono)
  ultimately show ?case by (simp add: within_factor_def distrib_left)
qed

lemma within_factor_foldl:
  assumes "0 \<le> acc" and "\<forall>x\<in>set xs. 0 \<le> x"
  shows "within_factor ((1 - unit_roundoff md) ^ length xs)
           (foldl (\<lambda>a x. rnd md (a + x)) acc xs) (acc + sum_list xs)"
  using assms
proof (induction xs arbitrary: acc)
  case Nil
  then show ?case by (simp add: within_factor_def)
next
  case (Cons x xs)
  let ?q = "1 - unit_roundoff md"
  have q: "0 \<le> ?q" "?q \<le> 1" using unit_roundoff_bounds [of md] by simp_all
  have ax: "0 \<le> acc + x" using Cons.prems by simp
  have s: "0 \<le> sum_list xs" using Cons.prems by (intro sum_list_nonneg) simp
  have r: "within_factor ?q (rnd md (acc + x)) (acc + x)" using ax by (rule within_factor_rnd)
  then have rr: "?q * (acc + x) \<le> rnd md (acc + x)" "?q * rnd md (acc + x) \<le> acc + x"
    by (simp_all only: within_factor_def)
  have "0 \<le> ?q * (acc + x)" using q(1) ax by (rule mult_nonneg_nonneg)
  then have r0: "0 \<le> rnd md (acc + x)" using rr(1) by (rule order_trans)
  have qs: "?q * sum_list xs \<le> sum_list xs"
    using mult_right_mono [OF q(2) s] by simp
  have "?q * (acc + x) + ?q * sum_list xs \<le> rnd md (acc + x) + sum_list xs"
    using rr(1) qs by (rule add_mono)
  moreover have "?q * rnd md (acc + x) + ?q * sum_list xs \<le> acc + x + sum_list xs"
    using rr(2) qs by (rule add_mono)
  ultimately have step:
    "within_factor ?q (rnd md (acc + x) + sum_list xs) (acc + x + sum_list xs)"
    unfolding within_factor_def by (simp only: distrib_left)
  have ih: "within_factor (?q ^ length xs)
              (foldl (\<lambda>a x. rnd md (a + x)) (rnd md (acc + x)) xs)
              (rnd md (acc + x) + sum_list xs)"
    using Cons.IH [OF r0] Cons.prems by simp
  have "within_factor (?q ^ length xs * ?q)
              (foldl (\<lambda>a x. rnd md (a + x)) (rnd md (acc + x)) xs) (acc + x + sum_list xs)"
    using q by (intro within_factor_trans [OF _ _ ih step]) simp_all
  then show ?case by (simp add: add.assoc mult.commute)
qed

lemma within_factor_sqrt:
  assumes "0 \<le> q" and "within_factor q a b"
  shows "within_factor (sqrt q) (sqrt a) (sqrt b)"
proof -
  have "sqrt (q * b) \<le> sqrt a" "sqrt (q * a) \<le> sqrt b"
    using assms(2) by (simp_all add: within_factor_def)
  then show ?thesis by (simp add: within_factor_def real_sqrt_mult)
qed

lemma within_factor_power2:
  assumes "0 \<le> q" and "0 \<le> a" and "0 \<le> b" and "within_factor q a b"
  shows "within_factor (q ^ 2) (a ^ 2) (b ^ 2)"
proof -
  have "(q * b) ^ 2 \<le> a ^ 2" "(q * a) ^ 2 \<le> b ^ 2"
    using assms by (auto simp: within_factor_def intro!: power_mono)
  then show ?thesis by (simp add: within_factor_def power_mult_distrib)
qed

lemma rnd_nonneg: "0 \<le> x \<Longrightarrow> 0 \<le> rnd md x"
  by (cases md) (simp_all add: binary64_nonneg)

lemma within_factor_rnd_abs: "within_factor (1 - unit_roundoff md) \<bar>rnd md x\<bar> \<bar>x\<bar>"
proof -
  let ?u = "unit_roundoff md"
  have u: "0 \<le> ?u" "?u \<le> 1 / 4" by (rule unit_roundoff_bounds)+
  have e: "\<bar>rnd md x - x\<bar> \<le> ?u * \<bar>x\<bar>" by (rule rnd_error)
  have "(1 - ?u) * \<bar>x\<bar> = \<bar>x\<bar> - ?u * \<bar>x\<bar>" "(1 + ?u) * \<bar>x\<bar> = \<bar>x\<bar> + ?u * \<bar>x\<bar>"
    by (simp_all add: algebra_simps)
  moreover have "\<bar>x\<bar> - ?u * \<bar>x\<bar> \<le> \<bar>rnd md x\<bar>" "\<bar>rnd md x\<bar> \<le> \<bar>x\<bar> + ?u * \<bar>x\<bar>"
    using e by linarith+
  ultimately have lo: "(1 - ?u) * \<bar>x\<bar> \<le> \<bar>rnd md x\<bar>" and hi: "\<bar>rnd md x\<bar> \<le> (1 + ?u) * \<bar>x\<bar>"
    by (simp_all only:)
  have "(1 - ?u) * \<bar>rnd md x\<bar> \<le> (1 - ?u) * ((1 + ?u) * \<bar>x\<bar>)"
    using hi u by (intro mult_left_mono) simp_all
  also have "\<dots> = \<bar>x\<bar> - ?u * ?u * \<bar>x\<bar>" by (simp add: algebra_simps)
  also have "\<dots> \<le> \<bar>x\<bar>" by simp
  finally show ?thesis using lo by (simp add: within_factor_def)
qed

lemma py_sum_bounds:
  "within_factor ((1 - unit_roundoff md) ^ length v * (1 - 2 * unit_roundoff md))
     (py_sum md (map (square md) v)) (\<Sum>x\<leftarrow>v. x\<^sup>2)"
proof -
  let ?q = "1 - unit_roundoff md"
  let ?q2 = "1 - 2 * unit_roundoff md"
  have q: "0 \<le> ?q" "0 \<le> ?q2" using unit_roundoff_bounds [of md] by simp_all
  have nn: "\<forall>y\<in>set (map (square md) v). 0 \<le> y" by (auto simp: square_nonneg)
  have "within_factor (?q ^ length (map (square md) v))
          (foldl (\<lambda>a x. rnd md (a + x)) 0 (map (square md) v))
          (0 + sum_list (map (square md) v))"
    using nn by (intro within_factor_foldl) simp_all
  then have a: "within_factor (?q ^ length v) (py_sum md (map (square md) v))
                  (\<Sum>x\<leftarrow>v. square md x)"
    by (simp add: py_sum_def)
  have b: "within_factor ?q2 (\<Sum>x\<leftarrow>v. square md x) (\<Sum>x\<leftarrow>v. x\<^sup>2)"
    by (intro within_factor_sum_list ballI within_factor_square)
  show ?thesis using q by (intro within_factor_trans [OF _ _ a b]) simp_all
qed

lemma py_sum_squares_nonneg: "0 \<le> py_sum md (map (square md) v)"
proof -
  let ?Q = "(1 - unit_roundoff md) ^ length v * (1 - 2 * unit_roundoff md)"
  have "0 \<le> ?Q" using unit_roundoff_bounds [of md] by simp
  then have "0 \<le> ?Q * (\<Sum>x\<leftarrow>v. x\<^sup>2)" using sum_squares_nonneg by (rule mult_nonneg_nonneg)
  also have "\<dots> \<le> py_sum md (map (square md) v)"
    using py_sum_bounds [of md v] by (simp only: within_factor_def)
  finally show ?thesis .
qed

lemma vector_length_nonneg: "0 \<le> vector_length md v"
  unfolding vector_length_def by (intro rnd_nonneg) (simp add: py_sum_squares_nonneg)

lemma vector_length_squared_bounds:
  "within_factor ((1 - unit_roundoff md) ^ (length v + 2) * (1 - 2 * unit_roundoff md))
     ((vector_length md v)\<^sup>2) (\<Sum>x\<leftarrow>v. x\<^sup>2)"
proof -
  let ?q = "1 - unit_roundoff md"
  let ?q2 = "1 - 2 * unit_roundoff md"
  let ?Q = "?q ^ length v * ?q2"
  let ?Sh = "py_sum md (map (square md) v)"
  let ?S = "\<Sum>x\<leftarrow>v. x\<^sup>2"
  have q: "0 \<le> ?q" "0 \<le> ?q2" using unit_roundoff_bounds [of md] by simp_all
  then have Q: "0 \<le> ?Q" by simp
  have S: "0 \<le> ?S" by (rule sum_squares_nonneg)
  have a: "within_factor (sqrt ?Q) (sqrt ?Sh) (sqrt ?S)"
    using Q py_sum_bounds by (rule within_factor_sqrt)
  have Sh: "0 \<le> sqrt ?Sh"
  proof -
    have "0 \<le> sqrt ?Q * sqrt ?S" using Q S by simp
    also have "\<dots> \<le> sqrt ?Sh" using a by (simp add: within_factor_def)
    finally show ?thesis .
  qed
  have b: "within_factor ?q (vector_length md v) (sqrt ?Sh)"
    unfolding vector_length_def using Sh by (rule within_factor_rnd)
  have c: "within_factor (?q * sqrt ?Q) (vector_length md v) (sqrt ?S)"
    by (rule within_factor_trans [OF q(1) _ b a]) (use Q in simp)
  have "within_factor ((?q * sqrt ?Q)\<^sup>2) ((vector_length md v)\<^sup>2) ((sqrt ?S)\<^sup>2)"
    using q(1) Q S vector_length_nonneg c by (intro within_factor_power2) simp_all
  moreover have "(?q * sqrt ?Q)\<^sup>2 = ?q ^ (length v + 2) * ?q2"
  proof -
    have "(?q * sqrt ?Q)\<^sup>2 = ?q\<^sup>2 * (sqrt ?Q)\<^sup>2" by (rule power_mult_distrib)
    also have "(sqrt ?Q)\<^sup>2 = ?Q" using Q by (rule real_sqrt_pow2)
    also have "?q\<^sup>2 * ?Q = ?q ^ (2 + length v) * ?q2" by (simp only: power_add mult.assoc)
    also have "2 + length v = length v + 2" by simp
    finally show ?thesis .
  qed
  moreover have "(sqrt ?S)\<^sup>2 = ?S" using S by simp
  ultimately show ?thesis by (simp only:)
qed

lemma normalize_squares_bounds:
  assumes "\<exists>x\<in>set v. x \<noteq> 0"
  shows "within_factor ((1 - unit_roundoff md) ^ (length v + 4) * (1 - 2 * unit_roundoff md))
           (\<Sum>x\<leftarrow>map (\<lambda>x. rnd md (x / vector_length md v)) v. x\<^sup>2) 1"
proof -
  let ?q = "1 - unit_roundoff md"
  let ?q2 = "1 - 2 * unit_roundoff md"
  let ?Q = "?q ^ (length v + 2) * ?q2"
  let ?L = "vector_length md v"
  let ?S = "\<Sum>x\<leftarrow>v. x\<^sup>2"
  have q: "0 \<le> ?q" "0 \<le> ?q2" using unit_roundoff_bounds [of md] by simp_all
  then have Q: "0 \<le> ?Q" by simp
  have "?L \<noteq> 0" using assms by (simp add: vector_length_nonzero_iff)
  then have L2: "0 < ?L\<^sup>2" by simp
  have LS: "?Q * ?S \<le> ?L\<^sup>2" "?Q * ?L\<^sup>2 \<le> ?S"
    using vector_length_squared_bounds [of md v] by (simp_all only: within_factor_def)
  have comp: "within_factor (?q\<^sup>2) ((rnd md (x / ?L))\<^sup>2) ((x / ?L)\<^sup>2)" for x
  proof -
    have "within_factor (?q\<^sup>2) (\<bar>rnd md (x / ?L)\<bar>\<^sup>2) (\<bar>x / ?L\<bar>\<^sup>2)"
      using q(1) within_factor_rnd_abs [of md "x / ?L"] by (intro within_factor_power2) simp_all
    then show ?thesis by (simp only: power2_abs)
  qed
  have "within_factor (?q\<^sup>2) (\<Sum>x\<leftarrow>v. (rnd md (x / ?L))\<^sup>2) (\<Sum>x\<leftarrow>v. (x / ?L)\<^sup>2)"
    by (intro within_factor_sum_list ballI comp)
  moreover have "(\<Sum>x\<leftarrow>v. (x / ?L)\<^sup>2) = ?S / ?L\<^sup>2"
    by (simp add: power_divide sum_list_divide_const)
  moreover have "(\<Sum>x\<leftarrow>v. (rnd md (x / ?L))\<^sup>2) = (\<Sum>x\<leftarrow>map (\<lambda>x. rnd md (x / ?L)) v. x\<^sup>2)"
    by (simp add: comp_def)
  ultimately have a:
    "within_factor (?q\<^sup>2) (\<Sum>x\<leftarrow>map (\<lambda>x. rnd md (x / ?L)) v. x\<^sup>2) (?S / ?L\<^sup>2)"
    by (simp only:)
  have "?Q * 1 \<le> ?S / ?L\<^sup>2" using LS(2) L2 by (simp add: le_divide_eq)
  moreover have "?Q * (?S / ?L\<^sup>2) \<le> 1" using LS(1) L2 by (simp add: divide_le_eq)
  ultimately have b: "within_factor ?Q (?S / ?L\<^sup>2) 1" unfolding within_factor_def by (rule conjI)
  have "within_factor (?q\<^sup>2 * ?Q) (\<Sum>x\<leftarrow>map (\<lambda>x. rnd md (x / ?L)) v. x\<^sup>2) 1"
    using _ Q a b by (rule within_factor_trans) simp
  moreover have "?q\<^sup>2 * ?Q = ?q ^ (length v + 4) * ?q2"
  proof -
    have "?q\<^sup>2 * ?Q = ?q ^ (2 + (length v + 2)) * ?q2" by (simp only: power_add mult.assoc)
    moreover have "2 + (length v + 2) = length v + 4" by simp
    ultimately show ?thesis by (simp only:)
  qed
  ultimately show ?thesis by (simp only:)
qed

lemma roundoff_product_bound:
  assumes "real (n + 6) * unit_roundoff md < 1"
  shows "1 - real (n + 6) * unit_roundoff md
           \<le> (1 - unit_roundoff md) ^ (n + 4) * (1 - 2 * unit_roundoff md)"
proof -
  let ?u = "unit_roundoff md"
  have u: "0 \<le> ?u" "?u \<le> 1 / 4" by (rule unit_roundoff_bounds)+
  have b: "1 + real (n + 4) * (- ?u) \<le> (1 + (- ?u)) ^ (n + 4)"
    using u by (intro Bernoulli_inequality) simp
  have nn: "0 \<le> 1 - real (n + 4) * ?u"
  proof -
    have "real (n + 4) * ?u \<le> real (n + 6) * ?u" using u(1) by (intro mult_right_mono) simp_all
    then show ?thesis using assms by linarith
  qed
  have "1 - real (n + 6) * ?u \<le> (1 - real (n + 6) * ?u) + 2 * real (n + 4) * (?u * ?u)"
    using u(1) by simp
  also have "\<dots> = (1 - real (n + 4) * ?u) * (1 - 2 * ?u)" by (simp add: algebra_simps)
  also have "\<dots> \<le> (1 - ?u) ^ (n + 4) * (1 - 2 * ?u)"
    using b u by (intro mult_right_mono) simp_all
  finally show ?thesis .
qed

lemma normalize_length_bounds:
  assumes "\<exists>x\<in>set v. x \<noteq> 0" and "real (length v + 6) * unit_roundoff md < 1"
  shows "1 - real (length v + 6) * unit_roundoff md
           \<le> sqrt (\<Sum>x\<leftarrow>map (\<lambda>x. rnd md (x / vector_length md v)) v. x\<^sup>2)"
    and "sqrt (\<Sum>x\<leftarrow>map (\<lambda>x. rnd md (x / vector_length md v)) v. x\<^sup>2)
           \<le> 1 / (1 - real (length v + 6) * unit_roundoff md)"
proof -
  let ?e = "real (length v + 6) * unit_roundoff md"
  let ?D = "(1 - unit_roundoff md) ^ (length v + 4) * (1 - 2 * unit_roundoff md)"
  let ?T = "\<Sum>x\<leftarrow>map (\<lambda>x. rnd md (x / vector_length md v)) v. x\<^sup>2"
  have e: "0 \<le> ?e" "?e < 1" using unit_roundoff_bounds(1) [of md] assms(2) by simp_all
  have D: "1 - ?e \<le> ?D" using assms(2) by (rule roundoff_product_bound)
  have T: "?D \<le> ?T" "?D * ?T \<le> 1"
    using normalize_squares_bounds [OF assms(1), of md] by (simp_all add: within_factor_def)
  have T0: "0 \<le> ?T" by (rule sum_squares_nonneg)
  have lo: "1 - ?e \<le> ?T" using D T(1) by (rule order_trans)
  have "(1 - ?e) * ?T \<le> ?D * ?T" using D T0 by (rule mult_right_mono)
  then have "(1 - ?e) * ?T \<le> 1" using T(2) by (rule order_trans)
  then have hi: "?T \<le> 1 / (1 - ?e)" using e by (simp add: le_divide_eq mult.commute)
  have "(1 - ?e)\<^sup>2 \<le> 1 - ?e" using e by (simp add: power2_eq_square mult_left_le)
  then have "(1 - ?e)\<^sup>2 \<le> ?T" using lo by (rule order_trans)
  then have "sqrt ((1 - ?e)\<^sup>2) \<le> sqrt ?T" by (simp only: real_sqrt_le_iff)
  then show "1 - ?e \<le> sqrt ?T" using e by simp
  define a where "a = 1 / (1 - ?e)"
  have one: "1 \<le> a" using e by (simp add: a_def)
  then have "1 * a \<le> a * a" by (intro mult_right_mono) simp_all
  then have "a \<le> a\<^sup>2" by (simp add: power2_eq_square)
  then have "?T \<le> a\<^sup>2" using hi unfolding a_def [symmetric] by (rule order_trans [rotated])
  then have "sqrt ?T \<le> sqrt (a\<^sup>2)" by (simp only: real_sqrt_le_iff)
  then have "sqrt ?T \<le> a" using one by simp
  then show "sqrt ?T \<le> 1 / (1 - ?e)" by (simp only: a_def)
qed

lemma euclidean_length_nonzero: "sqrt (\<Sum>x\<leftarrow>v. x\<^sup>2) \<noteq> 0 \<longleftrightarrow> (\<exists>x\<in>set v. x \<noteq> 0)"
  using vector_length_nonzero_iff [of Exact v] by (simp only: vector_length_Exact)

text \<open>
  Claim C7. For every vector \<open>v\<close> whose Euclidean length is not 0, \<open>normalize_vec v\<close>
  returns a vector \<open>w\<close> of the dimension of \<open>v\<close>, of Euclidean length 1 up to a
  floating-point tolerance, in which every component of \<open>v\<close> is scaled by the same
  positive factor \<open>c\<close>. The Euclidean length is the square root of the sum of the
  squares, not the value that \<open>vector_length\<close> computes. In exact arithmetic \<open>w\<close> is \<open>c\<close>
  times \<open>v\<close> and its length is 1. In binary64 arithmetic every component of \<open>w\<close> is
  \<open>c\<close> times the component of \<open>v\<close> up to one rounding, a relative error of at most
  \<open>1 / 2 ^ 53\<close>, and the length of \<open>w\<close> lies between \<open>1 - (n + 6) / 2 ^ 53\<close> and
  \<open>1 / (1 - (n + 6) / 2 ^ 53)\<close> for the dimension \<open>n\<close>; with the 200 dimensions of the
  notebook that is within \<open>2.3 * 10 ^ - 14\<close> of 1. The bound counts one rounding for each
  of the \<open>n\<close> additions, the error of the squares, the rounding of the square root and
  of the divisions; as everywhere in the model, the exponent range is unbounded.
\<close>

theorem normalize_unit_length:
  assumes "sqrt (\<Sum>x\<leftarrow>v. x\<^sup>2) \<noteq> 0"
    and "md = Binary64 \<longrightarrow> length v + 6 < 2 ^ 53"
  shows "\<exists>w c. normalize_vec md v = Inr w \<and> length w = length v \<and> 0 < c \<and>
           (md = Exact \<longrightarrow> w = map (\<lambda>x. c * x) v \<and> sqrt (\<Sum>x\<leftarrow>w. x\<^sup>2) = 1) \<and>
           (md = Binary64 \<longrightarrow>
              (\<forall>i<length v. \<bar>w ! i - c * v ! i\<bar> \<le> \<bar>c * v ! i\<bar> / 2 ^ 53) \<and>
              1 - real (length v + 6) / 2 ^ 53 \<le> sqrt (\<Sum>x\<leftarrow>w. x\<^sup>2) \<and>
              sqrt (\<Sum>x\<leftarrow>w. x\<^sup>2) \<le> 1 / (1 - real (length v + 6) / 2 ^ 53))"
proof -
  let ?L = "vector_length md v"
  let ?w = "map (\<lambda>x. rnd md (x / ?L)) v"
  have nz: "\<exists>x\<in>set v. x \<noteq> 0" using assms(1) by (simp only: euclidean_length_nonzero)
  then have L0: "?L \<noteq> 0" by (simp only: vector_length_nonzero_iff)
  then have L: "0 < ?L" using vector_length_nonneg [of md v] by simp
  have w: "normalize_vec md v = Inr ?w" using L0 by (rule normalize_Inr)
  have small: "real (length v + 6) * unit_roundoff md < 1"
  proof (cases md)
    case Exact
    then show ?thesis by simp
  next
    case Binary64
    then have "int (length v + 6) < 2 ^ 53" using assms(2) by simp
    then have "real (length v + 6) < 2 ^ 53"
      by (metis of_int_of_nat_eq of_int_less_numeral_power_cancel_iff)
    then show ?thesis using Binary64 by simp
  qed
  note b = normalize_length_bounds [OF nz small]
  have ex: "?w = map (\<lambda>x. 1 / ?L * x) v \<and> sqrt (\<Sum>x\<leftarrow>?w. x\<^sup>2) = 1" if "md = Exact"
    using b that by simp
  have fl: "(\<forall>i<length v. \<bar>?w ! i - 1 / ?L * v ! i\<bar> \<le> \<bar>1 / ?L * v ! i\<bar> / 2 ^ 53) \<and>
              1 - real (length v + 6) / 2 ^ 53 \<le> sqrt (\<Sum>x\<leftarrow>?w. x\<^sup>2) \<and>
              sqrt (\<Sum>x\<leftarrow>?w. x\<^sup>2) \<le> 1 / (1 - real (length v + 6) / 2 ^ 53)"
    if md: "md = Binary64"
  proof (intro conjI allI impI)
    fix i assume "i < length v"
    then have "?w ! i = rnd md (v ! i / ?L)" by simp
    then show "\<bar>?w ! i - 1 / ?L * v ! i\<bar> \<le> \<bar>1 / ?L * v ! i\<bar> / 2 ^ 53"
      using rnd_error [of md "v ! i / ?L"] md by simp
  next
    show "1 - real (length v + 6) / 2 ^ 53 \<le> sqrt (\<Sum>x\<leftarrow>?w. x\<^sup>2)"
      using b(1) md by simp
    show "sqrt (\<Sum>x\<leftarrow>?w. x\<^sup>2) \<le> 1 / (1 - real (length v + 6) / 2 ^ 53)"
      using b(2) md by simp
  qed
  have "normalize_vec md v = Inr ?w \<and> length ?w = length v \<and> 0 < 1 / ?L \<and>
           (md = Exact \<longrightarrow> ?w = map (\<lambda>x. 1 / ?L * x) v \<and> sqrt (\<Sum>x\<leftarrow>?w. x\<^sup>2) = 1) \<and>
           (md = Binary64 \<longrightarrow>
              (\<forall>i<length v. \<bar>?w ! i - 1 / ?L * v ! i\<bar> \<le> \<bar>1 / ?L * v ! i\<bar> / 2 ^ 53) \<and>
              1 - real (length v + 6) / 2 ^ 53 \<le> sqrt (\<Sum>x\<leftarrow>?w. x\<^sup>2) \<and>
              sqrt (\<Sum>x\<leftarrow>?w. x\<^sup>2) \<le> 1 / (1 - real (length v + 6) / 2 ^ 53))"
    using w L ex fl by simp
  then show ?thesis by blast
qed

theorem normalize_unit_length_witness:
  "sqrt (\<Sum>x\<leftarrow>[3, 4]. x\<^sup>2) \<noteq> (0::real) \<and>
   (\<exists>w c. normalize_vec Exact [3, 4] = Inr w \<and> length w = 2 \<and> 0 < c \<and>
      w = map (\<lambda>x. c * x) [3, 4] \<and> sqrt (\<Sum>x\<leftarrow>w. x\<^sup>2) = 1) \<and>
   (\<exists>w c. normalize_vec Binary64 [3, 4] = Inr w \<and> length w = 2 \<and> 0 < c \<and>
      \<bar>w ! 0 - c * 3\<bar> \<le> \<bar>c * 3\<bar> / 2 ^ 53 \<and> \<bar>w ! 1 - c * 4\<bar> \<le> \<bar>c * 4\<bar> / 2 ^ 53 \<and>
      1 - 8 / 2 ^ 53 \<le> sqrt (\<Sum>x\<leftarrow>w. x\<^sup>2) \<and> sqrt (\<Sum>x\<leftarrow>w. x\<^sup>2) \<le> 1 / (1 - 8 / 2 ^ 53))"
proof -
  have h: "sqrt (\<Sum>x\<leftarrow>[3, 4]. x\<^sup>2) \<noteq> (0::real)" by simp
  have d: "md = Binary64 \<longrightarrow> length [3, 4 :: real] + 6 < 2 ^ 53" for md by simp
  from normalize_unit_length [OF h d, of Exact] obtain w0 c0 where
    "normalize_vec Exact [3, 4] = Inr w0" "length w0 = 2" "0 < c0"
    "w0 = map (\<lambda>x. c0 * x) [3, 4]" "sqrt (\<Sum>x\<leftarrow>w0. x\<^sup>2) = 1"
    by auto
  then have e: "\<exists>w c. normalize_vec Exact [3, 4] = Inr w \<and> length w = 2 \<and> 0 < c \<and>
      w = map (\<lambda>x. c * x) [3, 4] \<and> sqrt (\<Sum>x\<leftarrow>w. x\<^sup>2) = 1" by blast
  from normalize_unit_length [OF h d, of Binary64] obtain w c where
    w: "normalize_vec Binary64 [3, 4] = Inr w" "length w = 2" "0 < c"
       "\<forall>i<2. \<bar>w ! i - c * [3, 4] ! i\<bar> \<le> \<bar>c * [3, 4] ! i\<bar> / 2 ^ 53"
       "1 - 8 / 2 ^ 53 \<le> sqrt (\<Sum>x\<leftarrow>w. x\<^sup>2)" "sqrt (\<Sum>x\<leftarrow>w. x\<^sup>2) \<le> 1 / (1 - 8 / 2 ^ 53)"
    by auto
  have "\<bar>w ! 0 - c * 3\<bar> \<le> \<bar>c * 3\<bar> / 2 ^ 53" "\<bar>w ! 1 - c * 4\<bar> \<le> \<bar>c * 4\<bar> / 2 ^ 53"
    using w(4) [THEN spec, of 0] w(4) [THEN spec, of 1] by simp_all
  then show ?thesis using h e w by blast
qed

lemma cosine_loop_returns:
  "length b \<le> length a \<Longrightarrow> \<exists>t. cosine_loop md a b i tot = Inr t"
proof (induction md a b i tot rule: cosine_loop.induct)
  case (1 md a b i tot)
  show ?case
  proof (cases "i < length b")
    case True
    then have "cosine_loop md a b i tot
                 = cosine_loop md a b (Suc i) (rnd md (tot + rnd md (a ! i * b ! i)))"
      using "1.prems" by (subst cosine_loop.simps) simp
    then show ?thesis using "1.IH" True "1.prems" by simp
  next
    case False
    then show ?thesis by (subst cosine_loop.simps) simp
  qed
qed

lemma cosine_dist_returns:
  assumes "length a = length b" and "vector_length md a \<noteq> 0" and "vector_length md b \<noteq> 0"
  shows "\<exists>r. cosine_dist md a b = Inr r"
proof -
  from cosine_loop_returns [of b a md 0 0] assms(1) obtain t where
    t: "cosine_loop md a b 0 0 = Inr t" by auto
  have "rnd md (vector_length md a * vector_length md b) \<noteq> 0"
    using assms(2,3) by (simp add: rnd_eq_0_iff)
  then show ?thesis using t by (simp add: cosine_dist_def truediv_def)
qed

lemma cosine_loop_sym:
  "length a = length b \<Longrightarrow> cosine_loop md a b i tot = cosine_loop md b a i tot"
proof (induction md a b i tot rule: cosine_loop.induct)
  case (1 md a b i tot)
  show ?case
  proof (cases "i < length b")
    case True
    then have "cosine_loop md a b i tot
                 = cosine_loop md a b (Suc i) (rnd md (tot + rnd md (a ! i * b ! i)))"
      using "1.prems" by (subst cosine_loop.simps) simp
    also have "\<dots> = cosine_loop md b a (Suc i) (rnd md (tot + rnd md (a ! i * b ! i)))"
      using "1.IH" True "1.prems" by simp
    also have "\<dots> = cosine_loop md b a i tot"
      using True "1.prems" by (subst (2) cosine_loop.simps) (simp add: mult.commute)
    finally show ?thesis .
  next
    case False
    then show ?thesis using "1.prems"
      by (subst cosine_loop.simps, subst (2) cosine_loop.simps) simp
  qed
qed

text \<open>
  Claim C9. \<open>cosine_dist\<close> is symmetric: for all vectors \<open>a\<close> and \<open>b\<close> of the vector space
  (both of the dimension \<open>d\<close>, so of equal dimension), \<open>cosine_dist a b\<close> and
  \<open>cosine_dist b a\<close> are the same, in exact and in rounded arithmetic alike. For vectors
  of nonzero length both are the same number; when a length is zero both raise the same
  exception.
\<close>

theorem cosine_dist_symmetric:
  assumes "length a = length b"
  shows "cosine_dist md a b = cosine_dist md b a"
proof -
  have "vector_length md a * vector_length md b = vector_length md b * vector_length md a"
    by (rule mult.commute)
  then show ?thesis
    by (simp only: cosine_dist_def cosine_loop_sym [OF assms])
qed

theorem cosine_dist_symmetric_witness:
  "length [1, 2::real] = length [3, 4::real] \<and>
   cosine_dist Binary64 [1, 2] [3, 4] = cosine_dist Binary64 [3, 4] [1, 2]"
proof -
  have l: "length [1, 2::real] = length [3, 4::real]" by simp
  show ?thesis using l cosine_dist_symmetric [OF l, of Binary64] by blast
qed

text \<open>
  The loop runs over the indices of the second argument only. For lists of different
  lengths, which the vector space of the program never holds, the longer first argument
  is cut and the shorter first argument raises IndexError.
\<close>

lemma cosine_dist_unequal_dimensions:
  "cosine_dist Exact [1, 0] [1] = Inr 0" "cosine_dist Exact [1] [1, 0] = Inl IndexError"
  by (simp_all add: cosine_dist_def cosine_loop.simps truediv_def vector_length_Exact)

lemma cosine_loop_Exact:
  "i \<le> length b \<Longrightarrow> length b \<le> length a \<Longrightarrow>
     cosine_loop Exact a b i tot = Inr (tot + (\<Sum>(x, y)\<leftarrow>zip (drop i a) (drop i b). x * y))"
proof (induction Exact a b i tot rule: cosine_loop.induct)
  case (1 a b i tot)
  show ?case
  proof (cases "i < length b")
    case True
    then have ia: "i < length a" using "1.prems" by simp
    have "cosine_loop Exact a b i tot = cosine_loop Exact a b (Suc i) (tot + a ! i * b ! i)"
      using True ia by (subst cosine_loop.simps) simp
    also have "\<dots> = Inr (tot + a ! i * b ! i
                           + (\<Sum>(x, y)\<leftarrow>zip (drop (Suc i) a) (drop (Suc i) b). x * y))"
      using "1.hyps" True ia "1.prems" by simp
    also have "\<dots> = Inr (tot + (\<Sum>(x, y)\<leftarrow>zip (drop i a) (drop i b). x * y))"
      using True ia by (simp add: Cons_nth_drop_Suc [symmetric])
    finally show ?thesis .
  next
    case False
    then have "i = length b" using "1.prems" by simp
    then show ?thesis by (subst cosine_loop.simps) simp
  qed
qed

lemma cauchy_schwarz_step:
  assumes "0 \<le> A" and "0 \<le> B"
  shows "\<bar>x\<bar> * \<bar>y\<bar> + sqrt A * sqrt B \<le> sqrt (x\<^sup>2 + A) * sqrt (y\<^sup>2 + B)"
proof -
  let ?l = "\<bar>x\<bar> * \<bar>y\<bar> + sqrt A * sqrt B"
  have l0: "0 \<le> ?l" using assms by simp
  have "2 * (\<bar>x\<bar> * sqrt B) * (\<bar>y\<bar> * sqrt A) \<le> (\<bar>x\<bar> * sqrt B)\<^sup>2 + (\<bar>y\<bar> * sqrt A)\<^sup>2"
    by (rule sum_squares_bound)
  then have "2 * (\<bar>x\<bar> * sqrt B) * (\<bar>y\<bar> * sqrt A) \<le> x\<^sup>2 * B + y\<^sup>2 * A"
    using assms by (simp add: power_mult_distrib)
  moreover have "?l\<^sup>2 = x\<^sup>2 * y\<^sup>2 + 2 * (\<bar>x\<bar> * sqrt B) * (\<bar>y\<bar> * sqrt A) + A * B"
    using assms by (simp add: power2_sum power_mult_distrib algebra_simps)
  ultimately have "?l\<^sup>2 \<le> (x\<^sup>2 + A) * (y\<^sup>2 + B)"
    by (simp add: algebra_simps)
  then have "sqrt (?l\<^sup>2) \<le> sqrt ((x\<^sup>2 + A) * (y\<^sup>2 + B))"
    by (rule real_sqrt_le_mono)
  then show ?thesis using l0 by (simp add: real_sqrt_mult)
qed

lemma cauchy_schwarz_zip:
  "\<bar>\<Sum>(x, y)\<leftarrow>zip a b. x * y\<bar> \<le> sqrt (\<Sum>x\<leftarrow>a. x\<^sup>2) * sqrt (\<Sum>y\<leftarrow>b. (y::real)\<^sup>2)"
proof (induction a arbitrary: b)
  case Nil
  then show ?case by simp
next
  case (Cons x a)
  show ?case
  proof (cases b)
    case Nil
    then show ?thesis by simp
  next
    case (Cons y b')
    have A: "0 \<le> (\<Sum>x\<leftarrow>a. x\<^sup>2)" by (rule sum_list_nonneg) auto
    have B: "0 \<le> (\<Sum>y\<leftarrow>b'. y\<^sup>2)" by (rule sum_list_nonneg) auto
    have "\<bar>x * y + (\<Sum>(x, y)\<leftarrow>zip a b'. x * y)\<bar>
            \<le> \<bar>x\<bar> * \<bar>y\<bar> + \<bar>\<Sum>(x, y)\<leftarrow>zip a b'. x * y\<bar>"
      by (simp add: abs_mult [symmetric] abs_triangle_ineq)
    also have "\<dots> \<le> \<bar>x\<bar> * \<bar>y\<bar> + sqrt (\<Sum>x\<leftarrow>a. x\<^sup>2) * sqrt (\<Sum>y\<leftarrow>b'. y\<^sup>2)"
      using Cons.IH [of b'] by simp
    also have "\<dots> \<le> sqrt (x\<^sup>2 + (\<Sum>x\<leftarrow>a. x\<^sup>2)) * sqrt (y\<^sup>2 + (\<Sum>y\<leftarrow>b'. y\<^sup>2))"
      by (rule cauchy_schwarz_step [OF A B])
    finally show ?thesis using Cons by simp
  qed
qed

text \<open>
  The distance of the vector \<open>[1, 1, 1]\<close> to itself in binary64 arithmetic: the dot
  product is 3, the length is the rounded square root of 3, and the product of the two
  lengths rounds to a number just below 3.
\<close>

lemma binary64_sqrt_3: "binary64 (sqrt 3) = 7800463371553962 / 2 ^ 52"
proof -
  have lo: "(7800463371553962 - 1 / 2) / 2 ^ 52 < sqrt 3"
    by (rule real_less_rsqrt) (simp add: power2_eq_square)
  have hi: "sqrt 3 < (7800463371553962 + 1 / 2) / 2 ^ 52"
    by (rule real_less_lsqrt) (simp_all add: power2_eq_square)
  have "binary64 (sqrt 3) = of_int 7800463371553962 / 2 ^ 52"
  proof (rule binary64_eqI)
    show "2 ^ 52 \<le> \<bar>sqrt 3\<bar> * 2 ^ 52" using lo by simp
    show "\<bar>sqrt 3\<bar> * 2 ^ 52 < 2 ^ 53" using hi by simp
    show "real_of_int 7800463371553962 - 1 / 2 < sqrt 3 * 2 ^ 52"
      using lo by (simp add: divide_less_eq)
    show "sqrt 3 * 2 ^ 52 < real_of_int 7800463371553962 + 1 / 2"
      using hi by (simp add: less_divide_eq)
  qed
  then show ?thesis by simp
qed

lemma binary64_length_product:
  "binary64 ((7800463371553962 / 2 ^ 52) * (7800463371553962 / 2 ^ 52)) = 6755399441055743 / 2 ^ 51"
proof -
  have "binary64 ((7800463371553962 / 2 ^ 52) * (7800463371553962 / 2 ^ 52))
          = of_int 6755399441055743 / 2 ^ 51"
    by (rule binary64_eqI) simp_all
  then show ?thesis by simp
qed

lemma binary64_quotient:
  "binary64 (3 / (6755399441055743 / 2 ^ 51)) = 4503599627370497 / 2 ^ 52"
proof -
  have "binary64 (3 / (6755399441055743 / 2 ^ 51)) = of_int 4503599627370497 / 2 ^ 52"
    by (rule binary64_eqI) simp_all
  then show ?thesis by simp
qed

lemma binary64_difference:
  "binary64 (1 - 4503599627370497 / 2 ^ 52) = - (1 / 2 ^ 52)"
proof -
  have "binary64 (1 - 4503599627370497 / 2 ^ 52) = of_int (- 4503599627370496) / 2 ^ 104"
    by (rule binary64_eqI) simp_all
  then show ?thesis by simp
qed

lemma vector_length_ones: "vector_length Binary64 [1, 1, 1] = 7800463371553962 / 2 ^ 52"
  by (simp add: vector_length_def py_sum_def square_one [of Binary64, simplified]
        binary64_1 binary64_2 binary64_3 binary64_sqrt_3)

lemma cosine_loop_ones: "cosine_loop Binary64 [1, 1, 1] [1, 1, 1] 0 0 = Inr 3"
  by (simp add: cosine_loop.simps binary64_1 binary64_2 binary64_3)

text \<open>
  Claim C8 says that \<open>cosine_dist a b\<close> lies in \<open>[0, 1]\<close> for all vectors with
  non-negative components and nonzero lengths. As the interpreter computes it, with
  every operation rounded to binary64, the distance of \<open>[1.0, 1.0, 1.0]\<close> to itself is
  \<open>- 2\<^sup>-\<^sup>5\<^sup>2\<close> (about \<open>-2.2e-16\<close>), below 0.
\<close>

theorem cosine_dist_below_zero: "cosine_dist Binary64 [1, 1, 1] [1, 1, 1] = Inr (- (1 / 2 ^ 52))"
proof -
  have p: "rnd Binary64 (vector_length Binary64 [1, 1, 1] * vector_length Binary64 [1, 1, 1])
             = 6755399441055743 / 2 ^ 51"
    unfolding vector_length_ones using binary64_length_product by simp
  have q: "truediv Binary64 3 (6755399441055743 / 2 ^ 51) = Inr (4503599627370497 / 2 ^ 52)"
    unfolding truediv_def using binary64_quotient by simp
  show ?thesis
    unfolding cosine_dist_def cosine_loop_ones p using q binary64_difference by simp
qed

text \<open>
  Claim C8 as amended: in exact arithmetic, for every pair of vectors \<open>a\<close> and \<open>b\<close> of
  equal dimension with nonzero lengths and non-negative components, \<open>cosine_dist a b\<close>
  returns a number in \<open>[0, 1]\<close>; the computed floating-point value can leave the range by
  rounding error.
\<close>

theorem cosine_dist_range:
  assumes len: "length a = length b"
    and a: "vector_length Exact a \<noteq> 0" and b: "vector_length Exact b \<noteq> 0"
    and a0: "\<forall>x\<in>set a. 0 \<le> x" and b0: "\<forall>y\<in>set b. 0 \<le> y"
  shows "\<exists>r. cosine_dist Exact a b = Inr r \<and> 0 \<le> r \<and> r \<le> 1"
proof -
  let ?dot = "\<Sum>(x, y)\<leftarrow>zip a b. x * y"
  let ?la = "vector_length Exact a" and ?lb = "vector_length Exact b"
  have loop: "cosine_loop Exact a b 0 0 = Inr ?dot"
    using cosine_loop_Exact [of 0 b a 0] len by simp
  have la: "0 < ?la" using a vector_length_Exact_nonneg [of a] by simp
  have lb: "0 < ?lb" using b vector_length_Exact_nonneg [of b] by simp
  have prod: "0 < ?la * ?lb" using la lb by simp
  have val: "cosine_dist Exact a b = Inr (1 - ?dot / (?la * ?lb))"
    using loop la lb by (simp add: cosine_dist_def truediv_def)
  have "\<forall>p\<in>set (zip a b). 0 \<le> (case p of (x, y) \<Rightarrow> x * y)"
  proof
    fix p assume p: "p \<in> set (zip a b)"
    obtain x y where xy: "p = (x, y)" by (cases p)
    have "x \<in> set a" "y \<in> set b"
      using p xy by (auto dest: set_zip_leftD set_zip_rightD)
    then have "0 \<le> x * y" using a0 b0 by simp
    then show "0 \<le> (case p of (x, y) \<Rightarrow> x * y)" by (simp add: xy)
  qed
  then have dot0: "0 \<le> ?dot" by (intro sum_list_nonneg) auto
  have "?dot \<le> ?la * ?lb"
    using cauchy_schwarz_zip [of a b] by (simp add: vector_length_Exact)
  then have "?dot / (?la * ?lb) \<le> 1" using prod by (simp add: divide_le_eq)
  moreover have "0 \<le> ?dot / (?la * ?lb)" using dot0 prod by simp
  ultimately show ?thesis using val by simp
qed

theorem cosine_dist_range_witness:
  "length [1, 0::real] = length [1, 1::real] \<and> vector_length Exact [1, 0] \<noteq> 0 \<and>
   vector_length Exact [1, 1] \<noteq> 0 \<and>
   (\<exists>r. cosine_dist Exact [1, 0] [1, 1] = Inr r \<and> 0 \<le> r \<and> r \<le> 1)"
proof -
  have l: "length [1, 0::real] = length [1, 1::real]" by simp
  have a: "vector_length Exact [1, 0] \<noteq> 0" by (simp add: vector_length_Exact)
  have b: "vector_length Exact [1, 1] \<noteq> 0" by (simp add: vector_length_Exact)
  have a0: "\<forall>x\<in>set [1, 0::real]. 0 \<le> x" by simp
  have b0: "\<forall>y\<in>set [1, 1::real]. 0 \<le> y" by simp
  show ?thesis using l a b cosine_dist_range [OF l a b a0 b0] by blast
qed

subsection \<open>Train/test split\<close>

text \<open>
  The sizes are float products: for a genre of 90 files, \<^verbatim>\<open>90 * 0.7\<close> is the float
  \<open>62.99999999999999\<close> and the training slice starts at index 62, not 63.
\<close>

lemma binary64_90_float_0_7: "binary64 (real 90 * float_0_7) = 8866461766385663 / 2 ^ 47"
proof -
  have "binary64 (real 90 * float_0_7) = of_int 8866461766385663 / 2 ^ 47"
    by (rule binary64_eqI) (simp_all add: float_0_7_def)
  then show ?thesis by simp
qed

lemma split_size_90: "split_size float_0_7 90 = 62"
proof -
  have "\<lfloor>8866461766385663 / 2 ^ 47 :: real\<rfloor> = 62" by (rule floor_unique) simp_all
  then show ?thesis
    unfolding split_size_def binary64_90_float_0_7 py_int_def by simp
qed

text \<open>
  For ten files \<^verbatim>\<open>10 * 0.7\<close> lies exactly half-way between two floats and rounds to the
  one with the even significand, which is 7.
\<close>

lemma binary64_10_float_0_7: "binary64 (real 10 * float_0_7) = 7"
proof -
  have "binary64 (real 10 * float_0_7) = of_int (7881299347898367 + 1) / 2 ^ 50"
    by (rule binary64_tieI) (simp_all add: float_0_7_def)
  then show ?thesis by simp
qed

lemma binary64_9_float_0_3: "binary64 (real 9 * float_0_3) = 6079859496950169 / 2 ^ 51"
proof -
  have "binary64 (real 9 * float_0_3) = of_int 6079859496950169 / 2 ^ 51"
    by (rule binary64_eqI) (simp_all add: float_0_3_def)
  then show ?thesis by simp
qed

lemma binary64_9_float_0_7: "binary64 (real 9 * float_0_7) = 7093169413108531 / 2 ^ 50"
proof -
  have "binary64 (real 9 * float_0_7) = of_int 7093169413108531 / 2 ^ 50"
    by (rule binary64_eqI) (simp_all add: float_0_7_def)
  then show ?thesis by simp
qed

lemma split_size_9: "split_size float_0_3 9 = 2" "split_size float_0_7 9 = 6"
proof -
  have "\<lfloor>6079859496950169 / 2 ^ 51 :: real\<rfloor> = 2" by (rule floor_unique) simp_all
  then show "split_size float_0_3 9 = 2"
    unfolding split_size_def binary64_9_float_0_3 py_int_def by simp
  have "\<lfloor>7093169413108531 / 2 ^ 50 :: real\<rfloor> = 6" by (rule floor_unique) simp_all
  then show "split_size float_0_7 9 = 6"
    unfolding split_size_def binary64_9_float_0_7 py_int_def by simp
qed

text \<open>
  Rounding is monotone, so the test slice always ends before the training slice starts:
  the two sets of a genre are disjoint, whatever its number of files.
\<close>

lemma split_size_le: "split_size float_0_3 n \<le> split_size float_0_7 n"
proof -
  let ?a = "binary64 (real n * float_0_3)" and ?b = "binary64 (real n * float_0_7)"
  have "real n * float_0_3 \<le> real n * float_0_7"
    by (intro mult_left_mono) (simp_all add: float_0_3_def float_0_7_def)
  moreover have 3: "0 \<le> real n * float_0_3" by (simp add: float_0_3_def)
  ultimately have le: "?a \<le> ?b" by (intro binary64_mono)
  have a: "0 \<le> ?a" using 3 by (rule binary64_nonneg)
  then have b: "0 \<le> ?b" using le by simp
  have "py_int ?a = \<lfloor>?a\<rfloor>" "py_int ?b = \<lfloor>?b\<rfloor>" using a b by (simp_all add: py_int_def)
  then have "py_int ?a \<le> py_int ?b" using floor_mono [OF le] by simp
  then show ?thesis by (simp add: split_size_def)
qed

lemma test_train_disjoint:
  "distinct fileids \<Longrightarrow> set (test_files fileids) \<inter> set (train_files fileids) = {}"
  unfolding test_files_def train_files_def
  by (rule set_take_disj_set_drop_if_distinct) (simp_all add: split_size_le)

text \<open>
  Claim C3 says that the test set of a genre is the first 30% of its document list, that
  the training set is the last 70%, and that the two are disjoint. For a genre of nine
  files (as the genre \<open>humor\<close> of the corpus) the code takes the first two files for
  testing and trains on the slice \<^verbatim>\<open>fileids[int(9 * 0.7):]\<close>, which is the last three
  files, a third of the genre, where the notebook's text says that 70% of the documents
  of each genre are used for training.
\<close>

theorem train_files_humor:
  "test_files [''cr01'', ''cr02'', ''cr03'', ''cr04'', ''cr05'', ''cr06'', ''cr07'', ''cr08'', ''cr09'']
     = [''cr01'', ''cr02''] \<and>
   train_files [''cr01'', ''cr02'', ''cr03'', ''cr04'', ''cr05'', ''cr06'', ''cr07'', ''cr08'', ''cr09'']
     = [''cr07'', ''cr08'', ''cr09'']"
proof -
  have "length [''cr01'', ''cr02'', ''cr03'', ''cr04'', ''cr05'', ''cr06'', ''cr07'', ''cr08'', ''cr09'']
          = 9" by simp
  then show ?thesis by (simp only: test_files_def train_files_def split_size_9) simp
qed

subsection \<open>Nearest-centroid classification\<close>

lemma pair_distance_Inr_iff:
  "pair_distance md G doc genre = Inr r \<longleftrightarrow>
     (\<exists>v nv w nw. context_vector_document G doc = Some v \<and> normalize_vec md v = Inr nv \<and>
        context_vector_genre G genre = Some w \<and> normalize_vec md w = Inr nw \<and>
        cosine_dist md nv nw = Inr r)"
  by (auto simp: pair_distance_def split: option.splits sum.splits)

lemma pair_distance_returns:
  assumes "context_vector_document G doc = Some v" and "context_vector_genre G genre = Some w"
    and "length v = length w"
    and "vector_length md v \<noteq> 0" and "vector_length md w \<noteq> 0"
  shows "\<exists>r. pair_distance md G doc genre = Inr r"
proof -
  from normalize_vec_nonzero [OF assms(4)] obtain nv where
    nv: "normalize_vec md v = Inr nv" "length nv = length v" "vector_length md nv \<noteq> 0" by blast
  from normalize_vec_nonzero [OF assms(5)] obtain nw where
    nw: "normalize_vec md w = Inr nw" "length nw = length w" "vector_length md nw \<noteq> 0" by blast
  have "length nv = length nw" using nv(2) nw(2) assms(3) by simp
  from cosine_dist_returns [OF this nv(3) nw(3)] obtain r where "cosine_dist md nv nw = Inr r" ..
  then show ?thesis using assms(1,2) nv(1) nw(1) by (simp add: pair_distance_def)
qed

lemma distances_defined:
  assumes "\<forall>doc\<in>set docs. \<exists>v. context_vector_document G doc = Some v \<and> length v = d \<and>
             vector_length md v \<noteq> 0"
    and "\<forall>g\<in>set genres. \<exists>w. context_vector_genre G g = Some w \<and> length w = d \<and>
             vector_length md w \<noteq> 0"
  shows "\<forall>doc\<in>set docs. \<forall>g\<in>set genres. \<exists>r. pair_distance md G doc g = Inr r"
proof (intro ballI)
  fix doc g assume "doc \<in> set docs" "g \<in> set genres"
  then obtain v w where
    "context_vector_document G doc = Some v" "length v = d" "vector_length md v \<noteq> 0"
    "context_vector_genre G g = Some w" "length w = d" "vector_length md w \<noteq> 0"
    using assms by blast
  then show "\<exists>r. pair_distance md G doc g = Inr r"
    using pair_distance_returns [of G doc v g w md] by simp
qed

lemma example_vector_lengths:
  "vector_length Binary64 [1, 0] = 1" "vector_length Binary64 [0, 1] = 1"
  by (simp_all add: vector_length_def py_sum_def square_one [of Binary64, simplified]
        square_zero [of Binary64, simplified] binary64_1 binary64_zero)

lemma example_normalize:
  "normalize_vec Binary64 [1, 0] = Inr [1, 0]" "normalize_vec Binary64 [0, 1] = Inr [0, 1]"
  by (simp_all add: normalize_vec_def truediv_def example_vector_lengths binary64_1 binary64_zero)

lemma example_cosine_dist:
  "cosine_dist Binary64 [1, 0] [1, 0] = Inr 0" "cosine_dist Binary64 [1, 0] [0, 1] = Inr 1"
  "cosine_dist Binary64 [0, 1] [1, 0] = Inr 1" "cosine_dist Binary64 [0, 1] [0, 1] = Inr 0"
  by (simp_all add: cosine_dist_def cosine_loop.simps truediv_def example_vector_lengths
      binary64_1 binary64_zero)

lemma example_pair_distance:
  "pair_distance Binary64 example_globals ''d1'' ''news'' = Inr 0"
  "pair_distance Binary64 example_globals ''d1'' ''humor'' = Inr 1"
  "pair_distance Binary64 example_globals ''d2'' ''news'' = Inr 1"
  "pair_distance Binary64 example_globals ''d2'' ''humor'' = Inr 0"
  by (simp_all add: pair_distance_def example_globals_def example_normalize example_cosine_dist)

lemma genre_pairs_Inr:
  "\<forall>g\<in>set gs. \<exists>r. pair_distance md G doc g = Inr r \<Longrightarrow>
   genre_pairs md G doc gs acc =
     Inr (acc @ map (\<lambda>g. (doc, g, projr (pair_distance md G doc g))) gs)"
proof (induction gs arbitrary: acc)
  case Nil
  then show ?case by simp
next
  case (Cons g gs)
  from Cons.prems obtain r where r: "pair_distance md G doc g = Inr r" by auto
  have "genre_pairs md G doc gs (acc @ [(doc, g, r)]) =
          Inr ((acc @ [(doc, g, r)]) @ map (\<lambda>g. (doc, g, projr (pair_distance md G doc g))) gs)"
    using Cons.prems by (intro Cons.IH) simp
  then show ?case using r by simp
qed

lemma all_pairs_Inr:
  "\<forall>doc\<in>set ds. \<forall>g\<in>set genres. \<exists>r. pair_distance md G doc g = Inr r \<Longrightarrow>
   all_pairs md G ds genres acc =
     Inr (acc @ concat (map (\<lambda>doc. map (\<lambda>g. (doc, g, projr (pair_distance md G doc g))) genres) ds))"
proof (induction ds arbitrary: acc)
  case Nil
  then show ?case by simp
next
  case (Cons doc ds)
  have "\<forall>g\<in>set genres. \<exists>r. pair_distance md G doc g = Inr r" using Cons.prems by simp
  then have row: "genre_pairs md G doc genres acc =
      Inr (acc @ map (\<lambda>g. (doc, g, projr (pair_distance md G doc g))) genres)"
    by (rule genre_pairs_Inr)
  have "all_pairs md G ds genres (acc @ map (\<lambda>g. (doc, g, projr (pair_distance md G doc g))) genres) =
     Inr ((acc @ map (\<lambda>g. (doc, g, projr (pair_distance md G doc g))) genres)
          @ concat (map (\<lambda>doc. map (\<lambda>g. (doc, g, projr (pair_distance md G doc g))) genres) ds))"
    using Cons.prems by (intro Cons.IH) simp
  then show ?case using row by simp
qed

lemma foldl_min_first:
  "\<exists>j<length (x # ys).
      foldl (\<lambda>best item. if key item < key best then item else best) x ys = (x # ys) ! j \<and>
      (\<forall>i<length (x # ys). key ((x # ys) ! j) \<le> key ((x # ys) ! i)) \<and>
      (\<forall>i<j. key ((x # ys) ! j) < (key ((x # ys) ! i) :: real))"
proof (induction ys rule: rev_induct)
  case Nil
  then show ?case by simp
next
  case (snoc y ys)
  let ?f = "\<lambda>best item. if key item < key best then item else best"
  let ?xs = "x # ys"
  from snoc obtain j where j: "j < length ?xs" "foldl ?f x ys = ?xs ! j"
    "\<forall>i<length ?xs. key (?xs ! j) \<le> key (?xs ! i)" "\<forall>i<j. key (?xs ! j) < key (?xs ! i)"
    by blast
  have app: "x # ys @ [y] = ?xs @ [y]" by simp
  have old: "(?xs @ [y]) ! i = ?xs ! i" if "i < length ?xs" for i
    using that by (simp only: nth_append if_True)
  have new: "(?xs @ [y]) ! length ?xs = y" by (simp only: nth_append_length)
  show ?case
  proof (cases "key y < key (?xs ! j)")
    case True
    have res: "foldl ?f x (ys @ [y]) = (?xs @ [y]) ! length ?xs"
      using True j(2) new by simp
    have "key y \<le> key ((?xs @ [y]) ! i)" if "i < length (?xs @ [y])" for i
    proof (cases "i < length ?xs")
      case True
      then show ?thesis using \<open>key y < key (?xs ! j)\<close> j(3) old [OF True] by fastforce
    next
      case False
      then have "i = length ?xs" using that by simp
      then show ?thesis using new by simp
    qed
    moreover have "key y < key ((?xs @ [y]) ! i)" if "i < length ?xs" for i
      using True j(3) old [OF that] that by fastforce
    ultimately show ?thesis
      unfolding app using res new by (intro exI [of _ "length ?xs"]) simp
  next
    case False
    have res: "foldl ?f x (ys @ [y]) = (?xs @ [y]) ! j"
      using False j(1,2) old [OF j(1)] by simp
    have "key ((?xs @ [y]) ! j) \<le> key ((?xs @ [y]) ! i)" if "i < length (?xs @ [y])" for i
    proof (cases "i < length ?xs")
      case True
      then show ?thesis using j(1,3) old [OF True] old [OF j(1)] by simp
    next
      case False
      then have "i = length ?xs" using that by simp
      then show ?thesis using new \<open>\<not> key y < key (?xs ! j)\<close> old [OF j(1)] by simp
    qed
    moreover have "key ((?xs @ [y]) ! j) < key ((?xs @ [y]) ! i)" if "i < j" for i
    proof -
      have "i < length ?xs" using that j(1) by simp
      then show ?thesis using j(4) that old [OF j(1)] old [of i] by simp
    qed
    ultimately show ?thesis
      unfolding app using res j(1) by (intro exI [of _ j]) simp
  qed
qed

lemma py_min_first:
  assumes "xs \<noteq> []"
  shows "\<exists>j<length xs. py_min key xs = Inr (xs ! j) \<and>
           (\<forall>i<length xs. key (xs ! j) \<le> key (xs ! i)) \<and>
           (\<forall>i<j. key (xs ! j) < key (xs ! i))"
proof -
  from assms obtain x ys where xs: "xs = x # ys" by (cases xs) auto
  show ?thesis unfolding xs py_min.simps using foldl_min_first [of x ys key] by blast
qed


lemma filter_rows:
  "filter (\<lambda>p. fst p = doc) (concat (map (\<lambda>d. map (\<lambda>g. (d, f d g)) genres) ds)) =
     concat (map (\<lambda>d. if d = doc then map (\<lambda>g. (doc, f doc g)) genres else []) ds)"
  by (induction ds) (simp_all add: filter_map comp_def)

lemma relevant_pairs:
  assumes "doc \<in> set ds"
  shows "\<exists>rest. filter (\<lambda>p. fst p = doc)
                  (concat (map (\<lambda>d. map (\<lambda>g. (d, f d g)) genres) ds))
                = map (\<lambda>g. (doc, f doc g)) genres @ rest \<and>
               set rest \<subseteq> set (map (\<lambda>g. (doc, f doc g)) genres)"
proof -
  from split_list_first [OF assms] obtain ds1 ds2 where
    ds: "ds = ds1 @ doc # ds2" "doc \<notin> set ds1" by blast
  let ?row = "map (\<lambda>g. (doc, f doc g)) genres"
  let ?h = "\<lambda>d. if d = doc then ?row else []"
  have 1: "concat (map ?h ds1) = []" using ds(2) by (induction ds1) auto
  have 2: "set (concat (map ?h ds2)) \<subseteq> set ?row" by auto
  have "filter (\<lambda>p. fst p = doc) (concat (map (\<lambda>d. map (\<lambda>g. (d, f d g)) genres) ds))
          = ?row @ concat (map ?h ds2)"
    unfolding filter_rows ds(1) using 1 by simp
  then show ?thesis using 2 by blast
qed

lemma py_min_relevant:
  assumes "row \<noteq> []" and "set rest \<subseteq> set row"
  shows "\<exists>j<length row. py_min key (row @ rest) = Inr (row ! j) \<and>
           (\<forall>i<length row. key (row ! j) \<le> key (row ! i)) \<and>
           (\<forall>i<j. key (row ! j) < key (row ! i))"
proof -
  let ?xs = "row @ rest"
  have "?xs \<noteq> []" using assms(1) by simp
  from py_min_first [OF this, of key] obtain j where
    j: "j < length ?xs" "py_min key ?xs = Inr (?xs ! j)"
       "\<forall>i<length ?xs. key (?xs ! j) \<le> key (?xs ! i)" "\<forall>i<j. key (?xs ! j) < key (?xs ! i)"
    by blast
  have jrow: "j < length row"
  proof (rule ccontr)
    assume "\<not> j < length row"
    then have ge: "length row \<le> j" by simp
    have "?xs ! j \<in> set ?xs" using j(1) by (rule nth_mem)
    then have "?xs ! j \<in> set row" using assms(2) by auto
    then obtain i where i: "i < length row" "row ! i = ?xs ! j" by (auto simp: in_set_conv_nth)
    have "?xs ! i = row ! i" using i(1) by (simp add: nth_append)
    moreover have "key (?xs ! j) < key (?xs ! i)" using j(4) i(1) ge by simp
    ultimately show False using i(2) by simp
  qed
  have eq: "?xs ! i = row ! i" if "i < length row" for i
    using that by (simp add: nth_append)
  have "\<forall>i<length row. key (row ! j) \<le> key (row ! i)"
    using j(3) eq jrow by (metis length_append trans_less_add1)
  moreover have "\<forall>i<j. key (row ! j) < key (row ! i)"
    using j(4) eq jrow by (metis less_trans)
  ultimately show ?thesis using j(2) eq [OF jrow] jrow by auto
qed


lemma select_loop_Inr:
  "\<forall>doc\<in>set ds. filter (\<lambda>pair. fst pair = doc) pp \<noteq> [] \<Longrightarrow>
   select_loop G pp ds (mp, c, i) =
     Inr (mp @ map (\<lambda>doc. projr (py_min (\<lambda>d. snd (snd d)) (filter (\<lambda>pair. fst pair = doc) pp))) ds,
          c + length (filter (\<lambda>doc. fst (snd (projr (py_min (\<lambda>d. snd (snd d))
                  (filter (\<lambda>pair. fst pair = doc) pp)))) = gold_standard G doc) ds),
          i + length (filter (\<lambda>doc. fst (snd (projr (py_min (\<lambda>d. snd (snd d))
                  (filter (\<lambda>pair. fst pair = doc) pp)))) \<noteq> gold_standard G doc) ds))"
proof (induction ds arbitrary: mp c i)
  case Nil
  then show ?case by simp
next
  case (Cons doc ds)
  let ?rel = "filter (\<lambda>pair. fst pair = doc) pp"
  have "?rel \<noteq> []" using Cons.prems by simp
  then obtain x xs where "?rel = x # xs" by (cases ?rel) auto
  then obtain best where best: "py_min (\<lambda>d. snd (snd d)) ?rel = Inr best" by simp
  have rest: "\<forall>doc\<in>set ds. filter (\<lambda>pair. fst pair = doc) pp \<noteq> []" using Cons.prems by simp
  show ?case
  proof (cases "fst (snd best) = gold_standard G doc")
    case True
    then show ?thesis using best Cons.IH [OF rest, of "mp @ [best]" "c + 1" i] by simp
  next
    case False
    then show ?thesis using best Cons.IH [OF rest, of "mp @ [best]" c "i + 1"] by simp
  qed
qed

lemma classify_Inr:
  assumes "genres \<noteq> []"
    and "\<forall>doc\<in>set docs. \<forall>g\<in>set genres. \<exists>r. pair_distance md G doc g = Inr r"
  shows "\<exists>B. classify md G docs genres =
           Inr (map B docs,
                length (filter (\<lambda>doc. fst (snd (B doc)) = gold_standard G doc) docs),
                length (filter (\<lambda>doc. fst (snd (B doc)) \<noteq> gold_standard G doc) docs)) \<and>
           (\<forall>doc\<in>set docs. \<exists>j<length genres.
              B doc = (doc, genres ! j, projr (pair_distance md G doc (genres ! j))) \<and>
              (\<forall>i<length genres. projr (pair_distance md G doc (genres ! j))
                                   \<le> projr (pair_distance md G doc (genres ! i))) \<and>
              (\<forall>i<j. projr (pair_distance md G doc (genres ! j))
                       < projr (pair_distance md G doc (genres ! i))))"
proof -
  let ?f = "\<lambda>doc g. (g, projr (pair_distance md G doc g))"
  let ?pp = "concat (map (\<lambda>doc. map (\<lambda>g. (doc, ?f doc g)) genres) docs)"
  let ?key = "\<lambda>d::pair. snd (snd d)"
  let ?B = "\<lambda>doc. projr (py_min ?key (filter (\<lambda>pair. fst pair = doc) ?pp))"
  have pairs: "all_pairs md G docs genres [] = Inr ?pp"
    using all_pairs_Inr [OF assms(2), of "[]"] by simp
  have best: "\<exists>j<length genres.
              ?B doc = (doc, genres ! j, projr (pair_distance md G doc (genres ! j))) \<and>
              filter (\<lambda>pair. fst pair = doc) ?pp \<noteq> [] \<and>
              (\<forall>i<length genres. projr (pair_distance md G doc (genres ! j))
                                   \<le> projr (pair_distance md G doc (genres ! i))) \<and>
              (\<forall>i<j. projr (pair_distance md G doc (genres ! j))
                       < projr (pair_distance md G doc (genres ! i)))"
    if doc: "doc \<in> set docs" for doc
  proof -
    let ?row = "map (\<lambda>g. (doc, ?f doc g)) genres"
    from relevant_pairs [OF doc, of ?f genres] obtain rest where
      rest: "filter (\<lambda>p. fst p = doc) ?pp = ?row @ rest" "set rest \<subseteq> set ?row" by blast
    have "?row \<noteq> []" using assms(1) by simp
    from py_min_relevant [OF this rest(2), of ?key] obtain j where
      j: "j < length ?row" "py_min ?key (?row @ rest) = Inr (?row ! j)"
         "\<forall>i<length ?row. ?key (?row ! j) \<le> ?key (?row ! i)"
         "\<forall>i<j. ?key (?row ! j) < ?key (?row ! i)"
      by blast
    have jg: "j < length genres" using j(1) by simp
    have "?B doc = ?row ! j" using j(2) rest(1) by simp
    then have 1: "?B doc = (doc, genres ! j, projr (pair_distance md G doc (genres ! j)))"
      using jg by simp
    have 2: "\<forall>i<length genres. projr (pair_distance md G doc (genres ! j))
                                   \<le> projr (pair_distance md G doc (genres ! i))"
      using j(3) jg by simp
    have 3: "\<forall>i<j. projr (pair_distance md G doc (genres ! j))
                       < projr (pair_distance md G doc (genres ! i))"
      using j(4) jg by simp
    have 4: "filter (\<lambda>pair. fst pair = doc) ?pp \<noteq> []" using rest(1) \<open>?row \<noteq> []\<close> by simp
    show ?thesis using jg 1 2 3 4 by blast
  qed
  have ne: "\<forall>doc\<in>set docs. filter (\<lambda>pair. fst pair = doc) ?pp \<noteq> []"
    using best by blast
  have "classify md G docs genres =
           Inr (map ?B docs,
                length (filter (\<lambda>doc. fst (snd (?B doc)) = gold_standard G doc) docs),
                length (filter (\<lambda>doc. fst (snd (?B doc)) \<noteq> gold_standard G doc) docs))"
    unfolding classify_def pairs using select_loop_Inr [OF ne, of G "[]" 0 0] by simp
  moreover have "\<forall>doc\<in>set docs. \<exists>j<length genres.
              ?B doc = (doc, genres ! j, projr (pair_distance md G doc (genres ! j))) \<and>
              (\<forall>i<length genres. projr (pair_distance md G doc (genres ! j))
                                   \<le> projr (pair_distance md G doc (genres ! i))) \<and>
              (\<forall>i<j. projr (pair_distance md G doc (genres ! j))
                       < projr (pair_distance md G doc (genres ! i)))"
    using best by blast
  ultimately show ?thesis by blast
qed

text \<open>
  The code computes the operations of the specification: the length, the normalized
  vector, and the cosine distance of two vectors of one dimension and nonzero length.
\<close>

lemma vector_length_spec: "vector_length md v = spec_length md v"
  by (simp add: vector_length_def spec_length_def py_sum_def foldl_map)

lemma normalize_spec:
  assumes "vector_length md v \<noteq> 0"
  shows "normalize_vec md v = Inr (spec_normalize md v)"
  using normalize_Inr [OF assms] by (simp add: spec_normalize_def vector_length_spec)

lemma cosine_loop_spec:
  "i \<le> length b \<Longrightarrow> length b \<le> length a \<Longrightarrow>
     cosine_loop md a b i tot
       = Inr (foldl (\<lambda>s (x, y). rnd md (s + rnd md (x * y))) tot (zip (drop i a) (drop i b)))"
proof (induction md a b i tot rule: cosine_loop.induct)
  case (1 md a b i tot)
  show ?case
  proof (cases "i < length b")
    case True
    then have ia: "i < length a" using "1.prems" by simp
    have "cosine_loop md a b i tot
            = cosine_loop md a b (Suc i) (rnd md (tot + rnd md (a ! i * b ! i)))"
      using True ia by (subst cosine_loop.simps) simp
    also have "\<dots> = Inr (foldl (\<lambda>s (x, y). rnd md (s + rnd md (x * y)))
                           (rnd md (tot + rnd md (a ! i * b ! i)))
                           (zip (drop (Suc i) a) (drop (Suc i) b)))"
      using "1.IH" True ia "1.prems" by simp
    also have "\<dots> = Inr (foldl (\<lambda>s (x, y). rnd md (s + rnd md (x * y))) tot
                           (zip (drop i a) (drop i b)))"
      using True ia by (simp add: Cons_nth_drop_Suc [symmetric])
    finally show ?thesis .
  next
    case False
    then have "i = length b" using "1.prems" by simp
    then show ?thesis by (subst cosine_loop.simps) simp
  qed
qed

lemma cosine_dist_spec:
  assumes "length a = length b" and "vector_length md a \<noteq> 0" and "vector_length md b \<noteq> 0"
  shows "cosine_dist md a b = Inr (spec_cosine_distance md a b)"
proof -
  have t: "cosine_loop md a b 0 0 = Inr (spec_dot md a b)"
    using cosine_loop_spec [of 0 b a md 0] assms(1) by (simp add: spec_dot_def)
  have "rnd md (vector_length md a * vector_length md b) \<noteq> 0"
    using assms(2,3) by (simp add: rnd_eq_0_iff)
  then show ?thesis
    using t by (simp add: cosine_dist_def truediv_def spec_cosine_distance_def vector_length_spec)
qed

lemma pair_distance_spec:
  assumes "context_vector_document G doc = Some v" and "context_vector_genre G genre = Some w"
    and "length v = length w" and "\<exists>x\<in>set v. x \<noteq> 0" and "\<exists>x\<in>set w. x \<noteq> 0"
  shows "pair_distance md G doc genre
           = Inr (spec_cosine_distance md (spec_normalize md v) (spec_normalize md w))"
proof -
  have v: "vector_length md v \<noteq> 0" and w: "vector_length md w \<noteq> 0"
    using assms(4,5) by (simp_all only: vector_length_nonzero_iff)
  from normalize_vec_nonzero [OF v] obtain nv where
    nv: "normalize_vec md v = Inr nv" "length nv = length v" "vector_length md nv \<noteq> 0" by blast
  from normalize_vec_nonzero [OF w] obtain nw where
    nw: "normalize_vec md w = Inr nw" "length nw = length w" "vector_length md nw \<noteq> 0" by blast
  have eq: "nv = spec_normalize md v" "nw = spec_normalize md w"
    using nv(1) nw(1) normalize_spec [OF v] normalize_spec [OF w] by simp_all
  have "length nv = length nw" using nv(2) nw(2) assms(3) by simp
  from cosine_dist_spec [OF this nv(3) nw(3)]
  have "cosine_dist md nv nw = Inr (spec_cosine_distance md nv nw)" .
  then show ?thesis using assms(1,2) nv(1) nw(1) eq by (simp add: pair_distance_def)
qed

lemma spec_length_Exact: "spec_length Exact v = sqrt (\<Sum>x\<leftarrow>v. x\<^sup>2)"
  using vector_length_Exact [of v] by (simp only: vector_length_spec)

lemma spec_normalize_Exact:
  "spec_normalize Exact v = map (\<lambda>x. x / sqrt (\<Sum>x\<leftarrow>v. x\<^sup>2)) v"
  by (simp add: spec_normalize_def spec_length_Exact)

lemma foldl_add_pairs:
  "foldl (\<lambda>s (x, y). s + x * y) s0 ps = s0 + (\<Sum>(x, y)\<leftarrow>ps. x * (y::real))"
  by (induction ps arbitrary: s0) (simp_all add: case_prod_beta)

lemma spec_dot_Exact: "spec_dot Exact a b = (\<Sum>(x, y)\<leftarrow>zip a b. x * y)"
  by (simp add: spec_dot_def foldl_add_pairs)

lemma spec_cosine_distance_Exact:
  "spec_cosine_distance Exact a b
     = 1 - (\<Sum>(x, y)\<leftarrow>zip a b. x * y) / (sqrt (\<Sum>x\<leftarrow>a. x\<^sup>2) * sqrt (\<Sum>y\<leftarrow>b. y\<^sup>2))"
  by (simp add: spec_cosine_distance_def spec_dot_Exact spec_length_Exact)

lemma classify_min_pairs:
  assumes "genres \<noteq> []"
    and defined: "\<forall>doc\<in>set docs. \<forall>g\<in>set genres. \<exists>r. pair_distance md G doc g = Inr r"
  shows "\<exists>mp c i. classify md G docs genres = Inr (mp, c, i) \<and> length mp = length docs \<and>
           (\<forall>k<length docs. \<exists>j<length genres. \<exists>r.
              mp ! k = (docs ! k, genres ! j, r) \<and>
              pair_distance md G (docs ! k) (genres ! j) = Inr r \<and>
              (\<forall>j'<length genres. \<forall>r'.
                 pair_distance md G (docs ! k) (genres ! j') = Inr r' \<longrightarrow> r \<le> r') \<and>
              (\<forall>j'<j. \<forall>r'.
                 pair_distance md G (docs ! k) (genres ! j') = Inr r' \<longrightarrow> r < r'))"
proof -
  from classify_Inr [OF assms(1) defined] obtain B where
    B: "classify md G docs genres =
           Inr (map B docs,
                length (filter (\<lambda>doc. fst (snd (B doc)) = gold_standard G doc) docs),
                length (filter (\<lambda>doc. fst (snd (B doc)) \<noteq> gold_standard G doc) docs))"
    and best: "\<forall>doc\<in>set docs. \<exists>j<length genres.
              B doc = (doc, genres ! j, projr (pair_distance md G doc (genres ! j))) \<and>
              (\<forall>i<length genres. projr (pair_distance md G doc (genres ! j))
                                   \<le> projr (pair_distance md G doc (genres ! i))) \<and>
              (\<forall>i<j. projr (pair_distance md G doc (genres ! j))
                       < projr (pair_distance md G doc (genres ! i)))"
    by blast
  have "\<exists>j<length genres. \<exists>r.
              map B docs ! k = (docs ! k, genres ! j, r) \<and>
              pair_distance md G (docs ! k) (genres ! j) = Inr r \<and>
              (\<forall>j'<length genres. \<forall>r'.
                 pair_distance md G (docs ! k) (genres ! j') = Inr r' \<longrightarrow> r \<le> r') \<and>
              (\<forall>j'<j. \<forall>r'.
                 pair_distance md G (docs ! k) (genres ! j') = Inr r' \<longrightarrow> r < r')"
    if k: "k < length docs" for k
  proof -
    let ?doc = "docs ! k"
    have doc: "?doc \<in> set docs" using k by simp
    from best doc obtain j where j: "j < length genres"
      "B ?doc = (?doc, genres ! j, projr (pair_distance md G ?doc (genres ! j)))"
      "\<forall>i<length genres. projr (pair_distance md G ?doc (genres ! j))
                                   \<le> projr (pair_distance md G ?doc (genres ! i))"
      "\<forall>i<j. projr (pair_distance md G ?doc (genres ! j))
                       < projr (pair_distance md G ?doc (genres ! i))"
      by blast
    let ?r = "projr (pair_distance md G ?doc (genres ! j))"
    have "genres ! j \<in> set genres" using j(1) by simp
    then obtain r0 where "pair_distance md G ?doc (genres ! j) = Inr r0"
      using defined doc by blast
    then have def: "pair_distance md G ?doc (genres ! j) = Inr ?r" by simp
    have le: "\<forall>j'<length genres. \<forall>r'.
                 pair_distance md G ?doc (genres ! j') = Inr r' \<longrightarrow> ?r \<le> r'"
      using j(3) by fastforce
    have less: "\<forall>j'<j. \<forall>r'.
                 pair_distance md G ?doc (genres ! j') = Inr r' \<longrightarrow> ?r < r'"
      using j(4) by fastforce
    have "map B docs ! k = (?doc, genres ! j, ?r)" using k j(2) by simp
    then show ?thesis using j(1) def le less by blast
  qed
  then show ?thesis using B by auto
qed

text \<open>
  Claim C2. For every test document the classifier computes the cosine distance between
  the normalized context vector of the document and the normalized context vector of
  every genre, and predicts the genre of minimum distance; when several genres tie for
  the minimum, the first of them in the enumeration order of the genres is chosen. The
  documents and the genres have context vectors of one dimension with a nonzero
  component. Then the two passes return and the \<open>k\<close>-th predicted pair belongs to the
  \<open>k\<close>-th document; its distance is the cosine distance of the specification between the
  normalized context vectors of the document and of the predicted genre (\<open>spec_cosine_distance\<close>
  of \<open>spec_normalize\<close>, not the functions of the code), it is at most the distance of
  every genre, and strictly below the distance of every genre enumerated earlier. In
  exact arithmetic the distance is 1 minus the dot product of the two normalized vectors
  over the product of their Euclidean lengths.
\<close>

theorem classify_nearest_first:
  assumes "genres \<noteq> []"
    and "\<forall>doc\<in>set docs. \<exists>v. context_vector_document G doc = Some v \<and> length v = d \<and>
           (\<exists>x\<in>set v. x \<noteq> 0)"
    and "\<forall>g\<in>set genres. \<exists>w. context_vector_genre G g = Some w \<and> length w = d \<and>
           (\<exists>x\<in>set w. x \<noteq> 0)"
  shows "\<exists>mp c i. classify md G docs genres = Inr (mp, c, i) \<and> length mp = length docs \<and>
           (\<forall>k<length docs. \<exists>j<length genres. \<exists>v w r.
              context_vector_document G (docs ! k) = Some v \<and>
              context_vector_genre G (genres ! j) = Some w \<and>
              mp ! k = (docs ! k, genres ! j, r) \<and>
              r = spec_cosine_distance md (spec_normalize md v) (spec_normalize md w) \<and>
              (\<forall>j'<length genres. \<forall>w'. context_vector_genre G (genres ! j') = Some w' \<longrightarrow>
                 r \<le> spec_cosine_distance md (spec_normalize md v) (spec_normalize md w')) \<and>
              (\<forall>j'<j. \<forall>w'. context_vector_genre G (genres ! j') = Some w' \<longrightarrow>
                 r < spec_cosine_distance md (spec_normalize md v) (spec_normalize md w')) \<and>
              (md = Exact \<longrightarrow>
                 (let nv = map (\<lambda>x. x / sqrt (\<Sum>x\<leftarrow>v. x\<^sup>2)) v;
                      nw = map (\<lambda>y. y / sqrt (\<Sum>y\<leftarrow>w. y\<^sup>2)) w
                  in r = 1 - (\<Sum>(x, y)\<leftarrow>zip nv nw. x * y)
                             / (sqrt (\<Sum>x\<leftarrow>nv. x\<^sup>2) * sqrt (\<Sum>y\<leftarrow>nw. y\<^sup>2)))))"
proof -
  have dist: "pair_distance md G doc g
                = Inr (spec_cosine_distance md (spec_normalize md v) (spec_normalize md w))"
    if "doc \<in> set docs" and "g \<in> set genres"
      and "context_vector_document G doc = Some v" and "context_vector_genre G g = Some w"
    for doc g v w
  proof -
    from assms(2) that(1) obtain v' where
      v': "context_vector_document G doc = Some v'" "length v' = d" "\<exists>x\<in>set v'. x \<noteq> 0"
      by blast
    from assms(3) that(2) obtain w' where
      w': "context_vector_genre G g = Some w'" "length w' = d" "\<exists>x\<in>set w'. x \<noteq> 0"
      by blast
    have "v' = v" "w' = w" using v'(1) w'(1) that(3,4) by simp_all
    then have "length v = length w" "\<exists>x\<in>set v. x \<noteq> 0" "\<exists>x\<in>set w. x \<noteq> 0"
      using v'(2,3) w'(2,3) by simp_all
    then show ?thesis using that(3,4) by (intro pair_distance_spec)
  qed
  have defined: "\<forall>doc\<in>set docs. \<forall>g\<in>set genres. \<exists>r. pair_distance md G doc g = Inr r"
  proof (intro ballI)
    fix doc g assume m: "doc \<in> set docs" "g \<in> set genres"
    then obtain v w where "context_vector_document G doc = Some v"
      "context_vector_genre G g = Some w"
      using assms(2,3) by blast
    then show "\<exists>r. pair_distance md G doc g = Inr r" using dist [OF m] by simp
  qed
  from classify_min_pairs [OF assms(1) defined] obtain mp c i where
    cl: "classify md G docs genres = Inr (mp, c, i)" "length mp = length docs"
    and mins: "\<forall>k<length docs. \<exists>j<length genres. \<exists>r.
              mp ! k = (docs ! k, genres ! j, r) \<and>
              pair_distance md G (docs ! k) (genres ! j) = Inr r \<and>
              (\<forall>j'<length genres. \<forall>r'.
                 pair_distance md G (docs ! k) (genres ! j') = Inr r' \<longrightarrow> r \<le> r') \<and>
              (\<forall>j'<j. \<forall>r'.
                 pair_distance md G (docs ! k) (genres ! j') = Inr r' \<longrightarrow> r < r')"
    by blast
  have "\<exists>j<length genres. \<exists>v w r.
              context_vector_document G (docs ! k) = Some v \<and>
              context_vector_genre G (genres ! j) = Some w \<and>
              mp ! k = (docs ! k, genres ! j, r) \<and>
              r = spec_cosine_distance md (spec_normalize md v) (spec_normalize md w) \<and>
              (\<forall>j'<length genres. \<forall>w'. context_vector_genre G (genres ! j') = Some w' \<longrightarrow>
                 r \<le> spec_cosine_distance md (spec_normalize md v) (spec_normalize md w')) \<and>
              (\<forall>j'<j. \<forall>w'. context_vector_genre G (genres ! j') = Some w' \<longrightarrow>
                 r < spec_cosine_distance md (spec_normalize md v) (spec_normalize md w')) \<and>
              (md = Exact \<longrightarrow>
                 (let nv = map (\<lambda>x. x / sqrt (\<Sum>x\<leftarrow>v. x\<^sup>2)) v;
                      nw = map (\<lambda>y. y / sqrt (\<Sum>y\<leftarrow>w. y\<^sup>2)) w
                  in r = 1 - (\<Sum>(x, y)\<leftarrow>zip nv nw. x * y)
                             / (sqrt (\<Sum>x\<leftarrow>nv. x\<^sup>2) * sqrt (\<Sum>y\<leftarrow>nw. y\<^sup>2))))"
    if k: "k < length docs" for k
  proof -
    let ?doc = "docs ! k"
    have doc: "?doc \<in> set docs" using k by simp
    from mins k obtain j r where j: "j < length genres"
      and mp: "mp ! k = (?doc, genres ! j, r)"
      and r: "pair_distance md G ?doc (genres ! j) = Inr r"
      and le: "\<forall>j'<length genres. \<forall>r'.
                 pair_distance md G ?doc (genres ! j') = Inr r' \<longrightarrow> r \<le> r'"
      and less: "\<forall>j'<j. \<forall>r'. pair_distance md G ?doc (genres ! j') = Inr r' \<longrightarrow> r < r'"
      by blast
    have gj: "genres ! j \<in> set genres" using j by simp
    obtain v where v: "context_vector_document G ?doc = Some v" using assms(2) doc by blast
    obtain w where w: "context_vector_genre G (genres ! j) = Some w" using assms(3) gj by blast
    let ?D = "\<lambda>w'. spec_cosine_distance md (spec_normalize md v) (spec_normalize md w')"
    have rD: "r = ?D w" using r dist [OF doc gj v w] by simp
    have le': "r \<le> ?D w'" if "j' < length genres" "context_vector_genre G (genres ! j') = Some w'"
      for j' w'
    proof -
      have "genres ! j' \<in> set genres" using that(1) by simp
      then have "pair_distance md G ?doc (genres ! j') = Inr (?D w')"
        using dist [OF doc _ v that(2)] by simp
      then show ?thesis using le that(1) by blast
    qed
    have less': "r < ?D w'" if "j' < j" "context_vector_genre G (genres ! j') = Some w'"
      for j' w'
    proof -
      have "genres ! j' \<in> set genres" using that(1) j by simp
      then have "pair_distance md G ?doc (genres ! j') = Inr (?D w')"
        using dist [OF doc _ v that(2)] by simp
      then show ?thesis using less that(1) by blast
    qed
    have ex: "let nv = map (\<lambda>x. x / sqrt (\<Sum>x\<leftarrow>v. x\<^sup>2)) v;
                  nw = map (\<lambda>y. y / sqrt (\<Sum>y\<leftarrow>w. y\<^sup>2)) w
              in r = 1 - (\<Sum>(x, y)\<leftarrow>zip nv nw. x * y)
                         / (sqrt (\<Sum>x\<leftarrow>nv. x\<^sup>2) * sqrt (\<Sum>y\<leftarrow>nw. y\<^sup>2))"
      if "md = Exact"
      unfolding Let_def rD that spec_cosine_distance_Exact spec_normalize_Exact ..
    show ?thesis using j v w mp rD le' less' ex by blast
  qed
  then show ?thesis using cl by blast
qed

theorem classify_nearest_first_witness:
  "[''news'', ''humor''] \<noteq> [] \<and>
   (\<exists>mp c i. classify Binary64 example_globals [''d1'', ''d2''] [''news'', ''humor'']
                = Inr (mp, c, i) \<and>
      length mp = length [''d1'', ''d2''] \<and>
      (\<forall>k<length [''d1'', ''d2'']. \<exists>j<length [''news'', ''humor'']. \<exists>v w r.
         context_vector_document example_globals ([''d1'', ''d2''] ! k) = Some v \<and>
         context_vector_genre example_globals ([''news'', ''humor''] ! j) = Some w \<and>
         mp ! k = ([''d1'', ''d2''] ! k, [''news'', ''humor''] ! j, r) \<and>
         r = spec_cosine_distance Binary64 (spec_normalize Binary64 v) (spec_normalize Binary64 w) \<and>
         (\<forall>j'<length [''news'', ''humor'']. \<forall>w'.
            context_vector_genre example_globals ([''news'', ''humor''] ! j') = Some w' \<longrightarrow>
            r \<le> spec_cosine_distance Binary64 (spec_normalize Binary64 v)
                  (spec_normalize Binary64 w')) \<and>
         (\<forall>j'<j. \<forall>w'.
            context_vector_genre example_globals ([''news'', ''humor''] ! j') = Some w' \<longrightarrow>
            r < spec_cosine_distance Binary64 (spec_normalize Binary64 v)
                  (spec_normalize Binary64 w'))))"
proof -
  have g: "[''news'', ''humor''] \<noteq> []" by simp
  have docs: "\<forall>doc\<in>set [''d1'', ''d2''].
      \<exists>v. context_vector_document example_globals doc = Some v \<and> length v = 2 \<and>
          (\<exists>x\<in>set v. x \<noteq> 0)"
    by (simp add: example_globals_def)
  have genres: "\<forall>g\<in>set [''news'', ''humor''].
      \<exists>w. context_vector_genre example_globals g = Some w \<and> length w = 2 \<and>
          (\<exists>x\<in>set w. x \<noteq> 0)"
    by (simp add: example_globals_def)
  from classify_nearest_first [OF g docs genres, of Binary64] obtain mp c i where
    "classify Binary64 example_globals [''d1'', ''d2''] [''news'', ''humor''] = Inr (mp, c, i)"
    "length mp = length [''d1'', ''d2'']"
    "\<forall>k<length [''d1'', ''d2'']. \<exists>j<length [''news'', ''humor'']. \<exists>v w r.
         context_vector_document example_globals ([''d1'', ''d2''] ! k) = Some v \<and>
         context_vector_genre example_globals ([''news'', ''humor''] ! j) = Some w \<and>
         mp ! k = ([''d1'', ''d2''] ! k, [''news'', ''humor''] ! j, r) \<and>
         r = spec_cosine_distance Binary64 (spec_normalize Binary64 v) (spec_normalize Binary64 w) \<and>
         (\<forall>j'<length [''news'', ''humor'']. \<forall>w'.
            context_vector_genre example_globals ([''news'', ''humor''] ! j') = Some w' \<longrightarrow>
            r \<le> spec_cosine_distance Binary64 (spec_normalize Binary64 v)
                  (spec_normalize Binary64 w')) \<and>
         (\<forall>j'<j. \<forall>w'.
            context_vector_genre example_globals ([''news'', ''humor''] ! j') = Some w' \<longrightarrow>
            r < spec_cosine_distance Binary64 (spec_normalize Binary64 v)
                  (spec_normalize Binary64 w'))"
    by (elim exE conjE) (rule that, assumption, assumption, blast)
  then show ?thesis using g by blast
qed

lemma zip_map_same: "zip xs (map f xs) = map (\<lambda>x. (x, f x)) xs"
  by (induction xs) simp_all

lemma percentage_eq_iff:
  assumes "0 < nt" and "0 < nd"
  shows "real c / real nt * 100 = real c / real nd * 100 \<longleftrightarrow> nd = nt \<or> c = 0"
proof -
  have "real c / real nt * 100 = real c / real nd * 100 \<longleftrightarrow> real c * real nd = real c * real nt"
    using assms by (auto simp add: field_simps)
  also have "\<dots> \<longleftrightarrow> c = 0 \<or> real nd = real nt" by simp
  finally show ?thesis by auto
qed

text \<open>
  Claim C10 says that the reported percentage is the number of correctly classified
  documents divided by the length of the global \<open>test_documents\<close>, and that it therefore
  equals the accuracy over \<open>docs\<close> only when \<open>docs\<close> and \<open>test_documents\<close> have the same
  length. When no document is classified correctly the two are equal whatever the
  lengths: for \<open>docs = [d1]\<close>, predicted \<open>news\<close> against the gold standard \<open>humor\<close>, the
  report is 0%, which is the accuracy over \<open>docs\<close> (0 of 1), while \<open>test_documents\<close> has two
  elements.
\<close>

theorem percentage_equal_lengths_differ:
  "pairwise_distance Binary64 example_globals [''d1''] [''news'', ''humor''] =
     Inr \<lparr>min_pairs = [(''d1'', ''news'', 0)], correct = 0, incorrect = 1,
          percentage = 0 / real (length [''d1'']) * 100\<rparr> \<and>
   length [''d1''] \<noteq> length (test_documents example_globals)"
proof -
  have "classify Binary64 example_globals [''d1''] [''news'', ''humor'']
          = Inr ([(''d1'', ''news'', 0)], 0, 1)"
    by (simp add: classify_def example_pair_distance) (simp add: example_globals_def)
  then show ?thesis
    by (simp add: pairwise_distance_def truediv_def binary64_zero example_globals_def)
qed

text \<open>
  Claim C10 as amended: the reported percentage is the number of correctly classified
  documents of \<open>docs\<close> divided by the length of the global \<open>test_documents\<close> (times 100),
  not by the length of \<open>docs\<close>; in exact arithmetic it equals the accuracy over \<open>docs\<close>
  exactly when \<open>docs\<close> has the same length as \<open>test_documents\<close> or no document is
  classified correctly.
\<close>

theorem pairwise_distance_percentage:
  assumes "genres \<noteq> []"
    and "\<forall>doc\<in>set docs. \<exists>v. context_vector_document G doc = Some v \<and> length v = d \<and>
           vector_length md v \<noteq> 0"
    and "\<forall>g\<in>set genres. \<exists>w. context_vector_genre G g = Some w \<and> length w = d \<and>
           vector_length md w \<noteq> 0"
    and "test_documents G \<noteq> []"
  shows "\<exists>rep. pairwise_distance md G docs genres = Inr rep \<and>
           correct rep = length (filter (\<lambda>(doc, p). fst (snd p) = gold_standard G doc)
                                   (zip docs (min_pairs rep))) \<and>
           correct rep + incorrect rep = length docs \<and>
           percentage rep
             = rnd md (rnd md (real (correct rep) / real (length (test_documents G))) * 100) \<and>
           (md = Exact \<and> docs \<noteq> [] \<longrightarrow>
              (percentage rep = real (correct rep) / real (length docs) * 100
                 \<longleftrightarrow> length docs = length (test_documents G) \<or> correct rep = 0))"
proof -
  have defined: "\<forall>doc\<in>set docs. \<forall>g\<in>set genres. \<exists>r. pair_distance md G doc g = Inr r"
    using assms(2,3) by (rule distances_defined)
  from classify_Inr [OF assms(1) defined] obtain B where
    B: "classify md G docs genres =
           Inr (map B docs,
                length (filter (\<lambda>doc. fst (snd (B doc)) = gold_standard G doc) docs),
                length (filter (\<lambda>doc. fst (snd (B doc)) \<noteq> gold_standard G doc) docs))"
    by blast
  let ?c = "length (filter (\<lambda>doc. fst (snd (B doc)) = gold_standard G doc) docs)"
  let ?i = "length (filter (\<lambda>doc. fst (snd (B doc)) \<noteq> gold_standard G doc) docs)"
  let ?nt = "length (test_documents G)"
  let ?rep = "\<lparr>min_pairs = map B docs, correct = ?c, incorrect = ?i,
               percentage = rnd md (rnd md (real ?c / real ?nt) * 100)\<rparr>"
  have nt: "0 < ?nt" using assms(4) by simp
  have run: "pairwise_distance md G docs genres = Inr ?rep"
    unfolding pairwise_distance_def B using nt by (simp add: truediv_def)
  have count: "?c = length (filter (\<lambda>(doc, p). fst (snd p) = gold_standard G doc)
                                   (zip docs (map B docs)))"
    by (simp add: zip_map_same filter_map comp_def)
  have total: "?c + ?i = length docs"
    using sum_length_filter_compl [of "\<lambda>doc. fst (snd (B doc)) = gold_standard G doc" docs]
    by simp
  have iff: "rnd md (rnd md (real ?c / real ?nt) * 100) = real ?c / real (length docs) * 100
                 \<longleftrightarrow> length docs = ?nt \<or> ?c = 0"
    if "md = Exact" "docs \<noteq> []"
    using that percentage_eq_iff [OF nt, of "length docs" ?c] by simp
  show ?thesis
    using run count total iff by (intro exI [of _ ?rep]) simp
qed

theorem pairwise_distance_percentage_witness:
  "[''news'', ''humor''] \<noteq> [] \<and> test_documents example_globals \<noteq> [] \<and>
   (\<exists>rep. pairwise_distance Exact example_globals [''d1'', ''d2''] [''news'', ''humor'']
             = Inr rep \<and>
      correct rep = length (filter (\<lambda>(doc, p). fst (snd p) = gold_standard example_globals doc)
                              (zip [''d1'', ''d2''] (min_pairs rep))) \<and>
      correct rep + incorrect rep = length [''d1'', ''d2''] \<and>
      percentage rep
        = rnd Exact (rnd Exact (real (correct rep)
                          / real (length (test_documents example_globals))) * 100) \<and>
      (Exact = Exact \<and> [''d1'', ''d2''] \<noteq> [] \<longrightarrow>
         (percentage rep = real (correct rep) / real (length [''d1'', ''d2'']) * 100
            \<longleftrightarrow> length [''d1'', ''d2''] = length (test_documents example_globals)
                \<or> correct rep = 0)))"
proof -
  have g: "[''news'', ''humor''] \<noteq> []" by simp
  have docs: "\<forall>doc\<in>set [''d1'', ''d2''].
      \<exists>v. context_vector_document example_globals doc = Some v \<and> length v = 2 \<and>
          vector_length Exact v \<noteq> 0"
    by (simp add: example_globals_def vector_length_Exact)
  have genres: "\<forall>g\<in>set [''news'', ''humor''].
      \<exists>w. context_vector_genre example_globals g = Some w \<and> length w = 2 \<and>
          vector_length Exact w \<noteq> 0"
    by (simp add: example_globals_def vector_length_Exact)
  have t: "test_documents example_globals \<noteq> []" by (simp add: example_globals_def)
  show ?thesis using g t pairwise_distance_percentage [OF g docs genres t] by blast
qed

end
